theory Spec2Isabelle
  imports Complex_Main "HOL-Library.Multiset" "HOL-Library.Log_Nat"
begin

section \<open>The Connections layer of htm.core\<close>

text \<open>
  This theory embeds \<^verbatim>\<open>src/htm/algorithms/Connections.cpp\<close> and the inhibition
  part of \<^verbatim>\<open>src/htm/algorithms/SpatialPooler.cpp\<close>.

  Conventions of the embedding.
  \<^item> Handles (\<^verbatim>\<open>CellIdx\<close>, \<^verbatim>\<open>Segment\<close>, \<^verbatim>\<open>Synapse\<close>) and counters are natural
    numbers; the capacity checks of the source are branches of the model.
  \<^item> \<^verbatim>\<open>Permanence\<close> and \<^verbatim>\<open>Real\<close> are 32-bit floats in the source; the model
    keeps their values as real numbers. Where the source computes a float from floats and
    the rounding can change what follows, the model rounds as binary32 arithmetic does
    (\<open>fadd\<close>, \<open>fsub\<close>, \<open>fmul\<close>, \<open>fdiv\<close> below): the heuristic of
    \<^verbatim>\<open>pruneSegment_\<close>, the shortfall of \<^verbatim>\<open>raisePermanencesToThreshold\<close> and the sum of
    \<^verbatim>\<open>bumpSegment\<close>, the boosted overlaps, the area, the density and the numbers of
    wanted columns of the inhibition. Comparisons, \<^verbatim>\<open>min\<close> and \<^verbatim>\<open>max\<close> are exact in
    both. The subtraction in \<^verbatim>\<open>initialize\<close> and the sum in \<^verbatim>\<open>adaptSegment\<close> are
    written without rounding.
  \<^item> The release build is modelled: \<^verbatim>\<open>NTA_ASSERT\<close> is compiled out,
    \<^verbatim>\<open>NTA_CHECK\<close> is a \<open>CheckFailed\<close> result.
  \<^item> A read or write outside a vector, \<^verbatim>\<open>back()\<close> of an empty vector and
    \<^verbatim>\<open>erase(end())\<close> are undefined behaviour in C++; the model returns
    \<open>Undefined\<close> there. \<^verbatim>\<open>map::at\<close> of a missing key throws; the model returns
    \<open>OutOfRange\<close>. A loop whose body leaves its condition and the state unchanged returns
    \<open>Diverges\<close>.
  \<^item> No event handler is subscribed, so the notification loops do nothing.
  \<^item> A name of the source that ends in an underscore (\<^verbatim>\<open>cells_\<close>) ends in \<open>_m\<close>
    here (\<open>cells_m\<close>), since an identifier of the logic cannot end in an underscore.
\<close>

type_synonym CellIdx = nat
type_synonym Segment = nat
type_synonym Synapse = nat
type_synonym Permanence = real

datatype error = CheckFailed | OutOfRange | Undefined | Diverges

definition bindE :: "error + 'a \<Rightarrow> ('a \<Rightarrow> error + 'b) \<Rightarrow> error + 'b" where
  "bindE m f = (case m of Inl e \<Rightarrow> Inl e | Inr x \<Rightarrow> f x)"

text \<open>
  Modelled from the spec: the constants \<^verbatim>\<open>minPermanence\<close>, \<^verbatim>\<open>maxPermanence\<close> and
  \<^verbatim>\<open>Epsilon\<close> are declared in headers that are not among the sources. The spec gives
  the permanence range \<open>[0, 1]\<close> and \<open>Epsilon\<close> as \<open>1e-6\<close>.
\<close>

definition minPermanence :: Permanence where
  "minPermanence = 0"

definition maxPermanence :: Permanence where
  "maxPermanence = 1"

definition Epsilon :: real where
  "Epsilon = 1 / 1000000"

text \<open>
  Binary32 arithmetic. A float operation returns the exact result rounded to the nearest
  number with a 24-bit significand, ties going to the even significand; below \<open>2^-126\<close>
  the spacing stays \<open>2^-149\<close>. \<open>floorLog2 x\<close> is the exponent \<open>k\<close> with
  \<open>2^k \<le> x < 2^(k+1)\<close> for positive \<open>x\<close>. Overflow to infinity is not represented: the
  rounded quantities of the model stay far below \<open>2^128\<close>. The operations are evaluated in
  single precision, one rounding for each, as on a target that computes \<^verbatim>\<open>float\<close>
  expressions in \<^verbatim>\<open>float\<close> and does not contract them.
\<close>

definition roundHalfEven :: "real \<Rightarrow> int" where
  "roundHalfEven q =
     (let f = \<lfloor>q\<rfloor> in
      if q - of_int f < 1 / 2 then f
      else if q - of_int f > 1 / 2 then f + 1
      else if even f then f else f + 1)"

definition floorLog2 :: "real \<Rightarrow> int" where
  "floorLog2 x = (if 1 \<le> x then bitlen \<lfloor>x\<rfloor> - 1 else - bitlen (\<lceil>1 / x\<rceil> - 1))"

definition fl32 :: "real \<Rightarrow> real" where
  "fl32 x =
     (if x = 0 then 0
      else let e = max (- 149) (floorLog2 \<bar>x\<bar> - 23)
           in of_int (roundHalfEven (x / 2 powi e)) * 2 powi e)"

definition fadd :: "real \<Rightarrow> real \<Rightarrow> real" where
  "fadd a b = fl32 (a + b)"

definition fsub :: "real \<Rightarrow> real \<Rightarrow> real" where
  "fsub a b = fl32 (a - b)"

definition fmul :: "real \<Rightarrow> real \<Rightarrow> real" where
  "fmul a b = fl32 (a * b)"

definition fdiv :: "real \<Rightarrow> real \<Rightarrow> real" where
  "fdiv a b = fl32 (a / b)"

text \<open>\<^verbatim>\<open>std::numeric_limits<Segment>::max()\<close> and \<^verbatim>\<open>std::numeric_limits<double>::max()\<close>.\<close>

definition Segment_max :: nat where
  "Segment_max = 2 ^ 32 - 1"

definition Synapse_max :: nat where
  "Synapse_max = 2 ^ 32 - 1"

definition double_max :: real where
  "double_max = (2 - 1 / 2 ^ 52) * 2 ^ 1023"

record SynapseData =
  presynapticCell :: CellIdx
  permanence :: Permanence
  segment :: Segment
  presynapticMapIndex_m :: Synapse

record SegmentData =
  synapses :: "Synapse list"
  numConnected :: nat
  cell :: CellIdx

record CellData =
  segments :: "Segment list"

record Connections =
  cells_m :: "CellData list"
  segments_m :: "SegmentData list"
  destroyedSegments_m :: "Segment list"
  synapses_m :: "SynapseData list"
  destroyedSynapses_m :: "Synapse list"
  potentialSynapsesForPresynapticCell_m :: "CellIdx \<rightharpoonup> Synapse list"
  connectedSynapsesForPresynapticCell_m :: "CellIdx \<rightharpoonup> Synapse list"
  potentialSegmentsForPresynapticCell_m :: "CellIdx \<rightharpoonup> Segment list"
  connectedSegmentsForPresynapticCell_m :: "CellIdx \<rightharpoonup> Segment list"
  connectedThreshold_m :: Permanence
  iteration_m :: nat
  timeseries_m :: bool
  previousUpdates_m :: "Permanence list"
  currentUpdates_m :: "Permanence list"
  prunedSyns_m :: nat
  prunedSegs_m :: nat

subsection \<open>Construction\<close>

text \<open>\<^verbatim>\<open>Connections::initialize\<close>; \<^verbatim>\<open>reset\<close> clears the two update vectors.\<close>

definition initialize :: "CellIdx \<Rightarrow> Permanence \<Rightarrow> bool \<Rightarrow> error + Connections" where
  "initialize numCells connectedThreshold timeseries =
     (if \<not> connectedThreshold \<ge> minPermanence then Inl CheckFailed
      else if \<not> connectedThreshold \<le> maxPermanence then Inl CheckFailed
      else Inr \<lparr> cells_m = replicate numCells \<lparr> segments = [] \<rparr>,
                 segments_m = [],
                 destroyedSegments_m = [],
                 synapses_m = [],
                 destroyedSynapses_m = [],
                 potentialSynapsesForPresynapticCell_m = Map.empty,
                 connectedSynapsesForPresynapticCell_m = Map.empty,
                 potentialSegmentsForPresynapticCell_m = Map.empty,
                 connectedSegmentsForPresynapticCell_m = Map.empty,
                 connectedThreshold_m = connectedThreshold - Epsilon,
                 iteration_m = 0,
                 timeseries_m = timeseries,
                 previousUpdates_m = [],
                 currentUpdates_m = [],
                 prunedSyns_m = 0,
                 prunedSegs_m = 0 \<rparr>)"

subsection \<open>Accessors of the header\<close>

text \<open>
  Modelled from the spec: \<^verbatim>\<open>numCells\<close>, \<^verbatim>\<open>numSegments(cell)\<close>,
  \<^verbatim>\<open>segmentsForCell\<close>, \<^verbatim>\<open>synapsesForSegment\<close>, \<^verbatim>\<open>numSynapses(segment)\<close> and
  \<^verbatim>\<open>dataForSynapse\<close> are inline accessors of \<^verbatim>\<open>Connections.hpp\<close>, which is not among
  the sources; they read the flat arrays that the spec's data model describes.
\<close>

definition numCells :: "Connections \<Rightarrow> nat" where
  "numCells c = length (cells_m c)"

definition segmentsForCell :: "Connections \<Rightarrow> CellIdx \<Rightarrow> Segment list" where
  "segmentsForCell c cl = segments (cells_m c ! cl)"

definition numSegments :: "Connections \<Rightarrow> CellIdx \<Rightarrow> nat" where
  "numSegments c cl = length (segmentsForCell c cl)"

definition synapsesForSegment :: "Connections \<Rightarrow> Segment \<Rightarrow> Synapse list" where
  "synapsesForSegment c sg = synapses (segments_m c ! sg)"

definition numSynapses :: "Connections \<Rightarrow> Segment \<Rightarrow> nat" where
  "numSynapses c sg = length (synapsesForSegment c sg)"

definition dataForSynapse :: "Connections \<Rightarrow> Synapse \<Rightarrow> SynapseData" where
  "dataForSynapse c sy = synapses_m c ! sy"

text \<open>A map entry read through \<^verbatim>\<open>operator[]\<close>: a missing key reads as the empty vector.\<close>

definition entry :: "('k \<rightharpoonup> 'v list) \<Rightarrow> 'k \<Rightarrow> 'v list" where
  "entry m k = (case m k of None \<Rightarrow> [] | Some v \<Rightarrow> v)"

subsection \<open>Existence check and the presynaptic maps\<close>

text \<open>
  \<^verbatim>\<open>Connections::synapseExists_\<close>. The slow branch searches the synapse list of the
  segment the synapse names; the fast branch compares the permanence with the sentinel
  \<open>-1\<close>.
\<close>

definition synapseExists_m :: "Connections \<Rightarrow> Synapse \<Rightarrow> bool \<Rightarrow> bool" where
  "synapseExists_m c sy fast =
     (if sy \<ge> length (synapses_m c) then False
      else if \<not> fast then
        sy \<in> set (synapses (segments_m c ! segment (synapses_m c ! sy)))
      else permanence (synapses_m c ! sy) \<noteq> - 1)"

text \<open>
  \<^verbatim>\<open>Connections::removeSynapseFromPresynapticMap_\<close>: the last synapse of the list is
  moved over position \<open>index\<close>, its back-index is rewritten, and both parallel vectors
  lose their last element. The function returns the synapse array and the two vectors.
\<close>

definition removeSynapseFromPresynapticMap_m ::
  "Synapse \<Rightarrow> Synapse list \<Rightarrow> Segment list \<Rightarrow> SynapseData list
     \<Rightarrow> error + (SynapseData list \<times> Synapse list \<times> Segment list)" where
  "removeSynapseFromPresynapticMap_m index preSynapses preSegments syns =
     (if preSynapses = [] \<or> preSegments = [] then Inl Undefined
      else let move = last preSynapses in
        if move \<ge> length syns \<or> index \<ge> length preSynapses \<or> index \<ge> length preSegments
        then Inl Undefined
        else Inr (syns[move := (syns ! move)\<lparr> presynapticMapIndex_m := index \<rparr>],
                  butlast (preSynapses[index := move]),
                  butlast (preSegments[index := last preSegments])))"


subsection \<open>Synapse permanence\<close>

text \<open>
  \<^verbatim>\<open>Connections::updateSynapsePermanence\<close>. The permanence is clamped and written
  first. When the connected status changes, the four \<^verbatim>\<open>operator[]\<close> reads create
  missing map entries, the synapse leaves one presynaptic list by swap-with-last and is
  appended to the other, and the segment's counter moves by one.
\<close>

definition updateSynapsePermanence ::
  "Connections \<Rightarrow> Synapse \<Rightarrow> Permanence \<Rightarrow> error + Connections" where
  "updateSynapsePermanence c sy permanence0 =
     (let perm = max (min permanence0 maxPermanence) minPermanence in
      if sy \<ge> length (synapses_m c) then Inl Undefined
      else
        let synData = synapses_m c ! sy;
            connectedBefore = (permanence synData \<ge> connectedThreshold_m c);
            connectedAfter = (perm \<ge> connectedThreshold_m c);
            c1 = c\<lparr> synapses_m := (synapses_m c)[sy := synData\<lparr> permanence := perm \<rparr>] \<rparr>
        in
        if connectedBefore = connectedAfter then Inr c1
        else
          let presyn = presynapticCell synData;
              potentialPresyn = entry (potentialSynapsesForPresynapticCell_m c) presyn;
              potentialPreseg = entry (potentialSegmentsForPresynapticCell_m c) presyn;
              connectedPresyn = entry (connectedSynapsesForPresynapticCell_m c) presyn;
              connectedPreseg = entry (connectedSegmentsForPresynapticCell_m c) presyn;
              sg = segment synData
          in
          if sg \<ge> length (segments_m c) then Inl Undefined
          else if connectedAfter then
            bindE (removeSynapseFromPresynapticMap_m (presynapticMapIndex_m synData)
                     potentialPresyn potentialPreseg (synapses_m c1))
              (\<lambda>(syns, potentialPresyn', potentialPreseg').
                 Inr (c1\<lparr>
                   segments_m := (segments_m c)[sg := (segments_m c ! sg)
                      \<lparr> numConnected := numConnected (segments_m c ! sg) + 1 \<rparr>],
                   synapses_m := syns[sy := (syns ! sy)
                      \<lparr> presynapticMapIndex_m := length connectedPresyn \<rparr>],
                   potentialSynapsesForPresynapticCell_m :=
                     (potentialSynapsesForPresynapticCell_m c)(presyn \<mapsto> potentialPresyn'),
                   potentialSegmentsForPresynapticCell_m :=
                     (potentialSegmentsForPresynapticCell_m c)(presyn \<mapsto> potentialPreseg'),
                   connectedSynapsesForPresynapticCell_m :=
                     (connectedSynapsesForPresynapticCell_m c)(presyn \<mapsto> connectedPresyn @ [sy]),
                   connectedSegmentsForPresynapticCell_m :=
                     (connectedSegmentsForPresynapticCell_m c)(presyn \<mapsto> connectedPreseg @ [sg])
                 \<rparr>))
          else
            bindE (removeSynapseFromPresynapticMap_m (presynapticMapIndex_m synData)
                     connectedPresyn connectedPreseg (synapses_m c1))
              (\<lambda>(syns, connectedPresyn', connectedPreseg').
                 Inr (c1\<lparr>
                   segments_m := (segments_m c)[sg := (segments_m c ! sg)
                      \<lparr> numConnected := numConnected (segments_m c ! sg) - 1 \<rparr>],
                   synapses_m := syns[sy := (syns ! sy)
                      \<lparr> presynapticMapIndex_m := length potentialPresyn \<rparr>],
                   potentialSynapsesForPresynapticCell_m :=
                     (potentialSynapsesForPresynapticCell_m c)(presyn \<mapsto> potentialPresyn @ [sy]),
                   potentialSegmentsForPresynapticCell_m :=
                     (potentialSegmentsForPresynapticCell_m c)(presyn \<mapsto> potentialPreseg @ [sg]),
                   connectedSynapsesForPresynapticCell_m :=
                     (connectedSynapsesForPresynapticCell_m c)(presyn \<mapsto> connectedPresyn'),
                   connectedSegmentsForPresynapticCell_m :=
                     (connectedSegmentsForPresynapticCell_m c)(presyn \<mapsto> connectedPreseg')
                 \<rparr>)))"

subsection \<open>Destroying synapses and segments\<close>

text \<open>The position of the first occurrence, as the search loops of the source find it.\<close>

fun firstIndex :: "'a \<Rightarrow> 'a list \<Rightarrow> nat option" where
  "firstIndex x [] = None"
| "firstIndex x (y # ys) = (if y = x then Some 0 else map_option Suc (firstIndex x ys))"

text \<open>
  The loop at the end of \<^verbatim>\<open>destroySynapse\<close>: the first position holding the synapse
  is overwritten with the last element and the vector is shortened.
\<close>

definition eraseFromSegment :: "Synapse \<Rightarrow> Synapse list \<Rightarrow> Synapse list" where
  "eraseFromSegment sy xs =
     (case firstIndex sy xs of None \<Rightarrow> xs | Some i \<Rightarrow> butlast (xs[i := last xs]))"

text \<open>An emptied presynaptic list is erased from its map.\<close>

definition storeOrErase :: "('k \<rightharpoonup> 'v list) \<Rightarrow> 'k \<Rightarrow> 'v list \<Rightarrow> ('k \<rightharpoonup> 'v list)" where
  "storeOrErase m k v = (if v = [] then m(k := None) else m(k \<mapsto> v))"

text \<open>
  \<^verbatim>\<open>Connections::destroySynapse\<close>. Nothing in the function writes the sentinel
  permanence that the fast branch of \<^verbatim>\<open>synapseExists_\<close> tests.
\<close>

definition destroySynapse :: "Connections \<Rightarrow> Synapse \<Rightarrow> error + Connections" where
  "destroySynapse c sy =
     (if \<not> synapseExists_m c sy True then Inr c
      else
        let synapseData = synapses_m c ! sy;
            sg = segment synapseData;
            presynCell = presynapticCell synapseData
        in
        if sg \<ge> length (segments_m c) then Inl Undefined
        else
          bindE
            (if permanence synapseData \<ge> connectedThreshold_m c then
               (case (connectedSynapsesForPresynapticCell_m c presynCell,
                      connectedSegmentsForPresynapticCell_m c presynCell) of
                  (Some preSynapses, Some preSegments) \<Rightarrow>
                    bindE (removeSynapseFromPresynapticMap_m (presynapticMapIndex_m synapseData)
                             preSynapses preSegments (synapses_m c))
                      (\<lambda>(syns, preSynapses', preSegments').
                         Inr (c\<lparr>
                           segments_m := (segments_m c)[sg := (segments_m c ! sg)
                              \<lparr> numConnected := numConnected (segments_m c ! sg) - 1 \<rparr>],
                           synapses_m := syns,
                           connectedSynapsesForPresynapticCell_m :=
                             storeOrErase (connectedSynapsesForPresynapticCell_m c)
                               presynCell preSynapses',
                           connectedSegmentsForPresynapticCell_m :=
                             (if preSynapses' = []
                              then (connectedSegmentsForPresynapticCell_m c)(presynCell := None)
                              else (connectedSegmentsForPresynapticCell_m c)
                                     (presynCell \<mapsto> preSegments')) \<rparr>))
                | _ \<Rightarrow> Inl OutOfRange)
             else
               (case (potentialSynapsesForPresynapticCell_m c presynCell,
                      potentialSegmentsForPresynapticCell_m c presynCell) of
                  (Some preSynapses, Some preSegments) \<Rightarrow>
                    bindE (removeSynapseFromPresynapticMap_m (presynapticMapIndex_m synapseData)
                             preSynapses preSegments (synapses_m c))
                      (\<lambda>(syns, preSynapses', preSegments').
                         Inr (c\<lparr>
                           synapses_m := syns,
                           potentialSynapsesForPresynapticCell_m :=
                             storeOrErase (potentialSynapsesForPresynapticCell_m c)
                               presynCell preSynapses',
                           potentialSegmentsForPresynapticCell_m :=
                             (if preSynapses' = []
                              then (potentialSegmentsForPresynapticCell_m c)(presynCell := None)
                              else (potentialSegmentsForPresynapticCell_m c)
                                     (presynCell \<mapsto> preSegments')) \<rparr>))
                | _ \<Rightarrow> Inl OutOfRange))
            (\<lambda>c1. Inr (c1\<lparr>
               segments_m := (segments_m c1)[sg := (segments_m c1 ! sg)
                  \<lparr> synapses := eraseFromSegment sy (synapses (segments_m c1 ! sg)) \<rparr>],
               destroyedSynapses_m := destroyedSynapses_m c1 @ [sy] \<rparr>)))"

text \<open>
  The loop of \<^verbatim>\<open>destroySegment\<close> destroys the last synapse of the segment until the
  list is empty. A call of \<^verbatim>\<open>destroySynapse\<close> that does not shorten the list returns
  at once without a change, so the loop of the source would not end.
\<close>

function destroySegmentLoop :: "Connections \<Rightarrow> Segment \<Rightarrow> error + Connections" where
  "destroySegmentLoop c sg =
     (if sg \<ge> length (segments_m c) then Inl Undefined
      else if synapses (segments_m c ! sg) = [] then Inr c
      else
        (case destroySynapse c (last (synapses (segments_m c ! sg))) of
           Inl e \<Rightarrow> Inl e
         | Inr c' \<Rightarrow>
             if length (synapses (segments_m c' ! sg)) < length (synapses (segments_m c ! sg))
             then destroySegmentLoop c' sg
             else Inl Diverges))"
  by pat_completeness auto
termination
  by (relation "measure (\<lambda>(c, sg). length (synapses (segments_m c ! sg)))") auto

text \<open>
  \<^verbatim>\<open>Connections::destroySegment\<close>: \<^verbatim>\<open>std::find\<close> and \<^verbatim>\<open>erase\<close> remove the first
  occurrence of the segment from its cell and keep the order of the others.
\<close>

definition destroySegment :: "Connections \<Rightarrow> Segment \<Rightarrow> error + Connections" where
  "destroySegment c sg =
     bindE (destroySegmentLoop c sg)
       (\<lambda>c1. let cl = cell (segments_m c1 ! sg) in
          if cl \<ge> length (cells_m c1) then Inl Undefined
          else if sg \<notin> set (segments (cells_m c1 ! cl)) then Inl Undefined
          else Inr (c1\<lparr>
            cells_m := (cells_m c1)[cl := (cells_m c1 ! cl)
               \<lparr> segments := remove1 sg (segments (cells_m c1 ! cl)) \<rparr>],
            destroyedSegments_m := destroyedSegments_m c1 @ [sg] \<rparr>))"


subsection \<open>Creating segments\<close>

text \<open>
  The heuristic of \<^verbatim>\<open>pruneSegment_\<close>: the squared permanences of a segment,
  accumulated from \<^verbatim>\<open>0.0f\<close> in list order in a \<^verbatim>\<open>float\<close>; the square and the sum are
  each rounded. The comparison with \<^verbatim>\<open>leastUsefulHeuristic\<close>, a \<^verbatim>\<open>double\<close>, is exact.
\<close>

definition heuristic :: "Connections \<Rightarrow> Segment \<Rightarrow> real" where
  "heuristic c sg =
     foldl (\<lambda>h syn. let p = permanence (dataForSynapse c syn) in fadd h (fmul p p)) 0
       (synapsesForSegment c sg)"

text \<open>One round of the loop over the segments of the cell.\<close>

definition leastUsefulStep ::
  "Connections \<Rightarrow> Segment \<times> real \<Rightarrow> Segment \<Rightarrow> Segment \<times> real" where
  "leastUsefulStep c acc sg =
     (let leastUsefulSegment = fst acc;
          leastUsefulHeuristic = snd acc;
          h = heuristic c sg
      in if h < leastUsefulHeuristic \<or> (h = leastUsefulHeuristic \<and> sg < leastUsefulSegment)
         then (sg, h) else (leastUsefulSegment, leastUsefulHeuristic))"

definition leastUseful :: "Connections \<Rightarrow> CellIdx \<Rightarrow> Segment \<times> real" where
  "leastUseful c cl = foldl (leastUsefulStep c) (Segment_max, double_max) (segmentsForCell c cl)"

text \<open>
  \<^verbatim>\<open>Connections::pruneSegment_\<close>. The reads of the loop are inside the arrays exactly
  when every segment of the cell and every synapse of those segments is.
\<close>

definition pruneSegment_m :: "Connections \<Rightarrow> CellIdx \<Rightarrow> error + Connections" where
  "pruneSegment_m c cl =
     (if cl \<ge> length (cells_m c) then Inl Undefined
      else if \<not> list_all (\<lambda>sg. sg < length (segments_m c) \<and>
                 list_all (\<lambda>syn. syn < length (synapses_m c)) (synapsesForSegment c sg))
               (segmentsForCell c cl)
      then Inl Undefined
      else destroySegment c (fst (leastUseful c cl)))"

text \<open>
  The pruning loop of \<^verbatim>\<open>createSegment\<close>. A round that does not lower the number of
  segments of the cell would be repeated for ever.
\<close>

function pruneLoop :: "Connections \<Rightarrow> CellIdx \<Rightarrow> nat \<Rightarrow> error + Connections" where
  "pruneLoop c cl maxSegmentsPerCell =
     (if numSegments c cl \<ge> maxSegmentsPerCell then
        (case pruneSegment_m c cl of
           Inl e \<Rightarrow> Inl e
         | Inr c' \<Rightarrow>
             if numSegments c' cl < numSegments c cl
             then pruneLoop c' cl maxSegmentsPerCell
             else Inl Diverges)
      else Inr c)"
  by pat_completeness auto
termination
  by (relation "measure (\<lambda>(c, cl, m). numSegments c cl)") auto

text \<open>\<^verbatim>\<open>Connections::createSegment\<close> returns the handle and the new state.\<close>

definition createSegment ::
  "Connections \<Rightarrow> CellIdx \<Rightarrow> nat \<Rightarrow> error + (Segment \<times> Connections)" where
  "createSegment c cl maxSegmentsPerCell =
     (if \<not> maxSegmentsPerCell > 0 then Inl CheckFailed
      else if \<not> cl < numCells c then Inl CheckFailed
      else
        bindE (pruneLoop c cl maxSegmentsPerCell)
          (\<lambda>c1.
             let segmentData = \<lparr> synapses = [], numConnected = 0, cell = cl \<rparr> in
             bindE
               (if destroyedSegments_m c1 \<noteq> [] then
                  let sg = last (destroyedSegments_m c1) in
                  if sg \<ge> length (segments_m c1) then Inl Undefined
                  else Inr (sg, c1\<lparr> destroyedSegments_m := butlast (destroyedSegments_m c1),
                                     segments_m := (segments_m c1)[sg := segmentData] \<rparr>)
                else if \<not> length (segments_m c1) < Segment_max then Inl CheckFailed
                else Inr (length (segments_m c1),
                          c1\<lparr> segments_m := segments_m c1 @ [segmentData] \<rparr>))
               (\<lambda>(sg, c2).
                  Inr (sg, c2\<lparr> cells_m := (cells_m c2)[cl := (cells_m c2 ! cl)
                                 \<lparr> segments := segments (cells_m c2 ! cl) @ [sg] \<rparr>] \<rparr>))))"

subsection \<open>Creating synapses\<close>

text \<open>
  The duplicate search of \<^verbatim>\<open>createSynapse\<close>: the first synapse of the segment whose
  presynaptic cell is the requested one.
\<close>

fun findExisting :: "SynapseData list \<Rightarrow> CellIdx \<Rightarrow> Synapse list \<Rightarrow> error + Synapse option" where
  "findExisting syns presynCell [] = Inr None"
| "findExisting syns presynCell (syn # rest) =
     (if syn \<ge> length syns then Inl Undefined
      else if presynCell = presynapticCell (syns ! syn) then Inr (Some syn)
      else findExisting syns presynCell rest)"

text \<open>
  \<^verbatim>\<open>Connections::createSynapse\<close>. A fresh slot is filled at once, so the element that
  \<^verbatim>\<open>emplace_back\<close> appends is written here with its final fields.
\<close>

definition createSynapse ::
  "Connections \<Rightarrow> Segment \<Rightarrow> CellIdx \<Rightarrow> Permanence \<Rightarrow> error + (Synapse \<times> Connections)" where
  "createSynapse c sg presynCell perm =
     (if sg \<ge> length (segments_m c) then Inl Undefined
      else
        bindE (findExisting (synapses_m c) presynCell (synapsesForSegment c sg))
          (\<lambda>found. case found of
             Some syn \<Rightarrow>
               if perm > permanence (synapses_m c ! syn)
               then bindE (updateSynapsePermanence c syn perm) (\<lambda>c'. Inr (syn, c'))
               else Inr (syn, c)
           | None \<Rightarrow>
               let potentialPresyn = entry (potentialSynapsesForPresynapticCell_m c) presynCell;
                   potentialPreseg = entry (potentialSegmentsForPresynapticCell_m c) presynCell;
                   synapseData = \<lparr> presynapticCell = presynCell,
                                   permanence = connectedThreshold_m c - 1,
                                   segment = sg,
                                   presynapticMapIndex_m = length potentialPresyn \<rparr>
               in
               bindE
                 (if destroyedSynapses_m c \<noteq> [] then
                    let synapse = last (destroyedSynapses_m c) in
                    if synapse \<ge> length (synapses_m c) then Inl Undefined
                    else Inr (synapse,
                              c\<lparr> destroyedSynapses_m := butlast (destroyedSynapses_m c),
                                 synapses_m := (synapses_m c)[synapse := synapseData] \<rparr>)
                  else if \<not> length (synapses_m c) < Synapse_max then Inl CheckFailed
                  else Inr (length (synapses_m c),
                            c\<lparr> synapses_m := synapses_m c @ [synapseData] \<rparr>))
                 (\<lambda>(synapse, c1).
                    let c2 = c1\<lparr>
                          potentialSynapsesForPresynapticCell_m :=
                            (potentialSynapsesForPresynapticCell_m c1)
                              (presynCell \<mapsto> potentialPresyn @ [synapse]),
                          potentialSegmentsForPresynapticCell_m :=
                            (potentialSegmentsForPresynapticCell_m c1)
                              (presynCell \<mapsto> potentialPreseg @ [sg]),
                          segments_m := (segments_m c1)[sg := (segments_m c1 ! sg)
                            \<lparr> synapses := synapses (segments_m c1 ! sg) @ [synapse] \<rparr>] \<rparr>
                    in bindE (updateSynapsePermanence c2 synapse perm)
                         (\<lambda>c3. Inr (synapse, c3)))))"

subsection \<open>Activity\<close>

text \<open>The inner loop of \<^verbatim>\<open>computeActivity\<close> increments one counter per listed segment.\<close>

fun countSegments :: "nat list \<Rightarrow> Segment list \<Rightarrow> error + nat list" where
  "countSegments v [] = Inr v"
| "countSegments v (sg # rest) =
     (if sg \<ge> length v then Inl Undefined else countSegments (v[sg := v ! sg + 1]) rest)"

fun activityLoop ::
  "(CellIdx \<rightharpoonup> Segment list) \<Rightarrow> nat list \<Rightarrow> CellIdx list \<Rightarrow> error + nat list" where
  "activityLoop m v [] = Inr v"
| "activityLoop m v (cl # rest) =
     (case m cl of
        None \<Rightarrow> activityLoop m v rest
      | Some sgs \<Rightarrow> bindE (countSegments v sgs) (\<lambda>v'. activityLoop m v' rest))"

text \<open>
  \<^verbatim>\<open>Connections::computeActivity(activePresynapticCells, learn)\<close> returns the vector of
  counts and the state with its bookkeeping updated.
\<close>

definition computeActivity ::
  "Connections \<Rightarrow> CellIdx list \<Rightarrow> bool \<Rightarrow> error + (nat list \<times> Connections)" where
  "computeActivity c activePresynapticCells learn =
     (let c1 = (if learn then c\<lparr> iteration_m := iteration_m c + 1 \<rparr> else c);
          c2 = (if timeseries_m c1
                then c1\<lparr> previousUpdates_m := currentUpdates_m c1, currentUpdates_m := [] \<rparr>
                else c1)
      in bindE (activityLoop (connectedSegmentsForPresynapticCell_m c2)
                  (replicate (length (segments_m c2)) 0) activePresynapticCells)
           (\<lambda>v. Inr (v, c2)))"

subsection \<open>Adapting a segment\<close>

text \<open>\<^verbatim>\<open>Connections::bumpSegment\<close>; the sum of permanence and \<open>delta\<close> is a float sum.\<close>

fun bumpLoop :: "Connections \<Rightarrow> Permanence \<Rightarrow> Synapse list \<Rightarrow> error + Connections" where
  "bumpLoop c delta [] = Inr c"
| "bumpLoop c delta (syn # rest) =
     (if syn \<ge> length (synapses_m c) then Inl Undefined
      else bindE (updateSynapsePermanence c syn (fadd (permanence (synapses_m c ! syn)) delta))
             (\<lambda>c1. bumpLoop c1 delta rest))"

definition bumpSegment :: "Connections \<Rightarrow> Segment \<Rightarrow> Permanence \<Rightarrow> error + Connections" where
  "bumpSegment c sg delta =
     (if sg \<ge> length (segments_m c) then Inl Undefined
      else bumpLoop c delta (synapsesForSegment c sg))"

text \<open>\<^verbatim>\<open>std::vector::resize(n, v)\<close>.\<close>

definition resize :: "'a list \<Rightarrow> nat \<Rightarrow> 'a \<Rightarrow> 'a list" where
  "resize xs n v = take n xs @ replicate (n - length xs) v"




subsection \<open>Raising permanences\<close>

text \<open>
  The comparator of \<^verbatim>\<open>raisePermanencesToThreshold\<close> and the postcondition that the
  C++ standard gives \<^verbatim>\<open>std::nth_element(first, nth, last, cmp)\<close>: the result is a
  rearrangement of the range, position \<open>n\<close> holds the element a full sort would put
  there, and no element from position \<open>n\<close> on is ordered before an element up to
  position \<open>n\<close>. Which rearrangement is produced is left to the
  library, so the library function is a parameter of the model.
\<close>

definition permanencesGreater :: "SynapseData list \<Rightarrow> Synapse \<Rightarrow> Synapse \<Rightarrow> bool" where
  "permanencesGreater syns A B = (permanence (syns ! A) > permanence (syns ! B))"

definition nth_element_post ::
  "('a \<Rightarrow> 'a \<Rightarrow> bool) \<Rightarrow> nat \<Rightarrow> 'a list \<Rightarrow> 'a list \<Rightarrow> bool" where
  "nth_element_post cmp n xs ys =
     (mset ys = mset xs \<and>
      (\<forall>i < length ys. \<forall>j < length ys. i \<le> n \<and> n \<le> j \<longrightarrow> \<not> cmp (ys ! j) (ys ! i)))"

text \<open>
  \<^verbatim>\<open>Connections::raisePermanencesToThreshold\<close>; the increment is a float difference.
\<close>

definition raisePermanencesToThreshold ::
  "((Synapse \<Rightarrow> Synapse \<Rightarrow> bool) \<Rightarrow> nat \<Rightarrow> Synapse list \<Rightarrow> Synapse list)
     \<Rightarrow> Connections \<Rightarrow> Segment \<Rightarrow> nat \<Rightarrow> error + Connections" where
  "raisePermanencesToThreshold nth_element c sg segmentThreshold =
     (if segmentThreshold = 0 then Inr c
      else if sg \<ge> length (segments_m c) then Inl Undefined
      else
        let segData = segments_m c ! sg in
        if numConnected segData \<ge> segmentThreshold then Inr c
        else if synapses segData = [] then Inr c
        else if \<not> list_all (\<lambda>syn. syn < length (synapses_m c)) (synapses segData)
        then Inl Undefined
        else
          let threshold = min segmentThreshold (length (synapses segData));
              minPermSynPtr = threshold - 1;
              arranged = nth_element (permanencesGreater (synapses_m c)) minPermSynPtr
                           (synapses segData);
              c1 = c\<lparr> segments_m := (segments_m c)[sg := segData\<lparr> synapses := arranged \<rparr>] \<rparr>
          in
          if minPermSynPtr \<ge> length arranged then Inl Undefined
          else if arranged ! minPermSynPtr \<ge> length (synapses_m c) then Inl Undefined
          else
            let increment = fsub (connectedThreshold_m c)
                              (permanence (synapses_m c ! (arranged ! minPermSynPtr)))
            in if increment \<le> 0 then Inr c1 else bumpSegment c1 sg increment)"


section \<open>The Spatial Pooler: overlaps and inhibition\<close>

text \<open>
  The fields of \<^verbatim>\<open>SpatialPooler\<close> that \<^verbatim>\<open>compute\<close> reads before its learning phase.
  \<open>neighborMap_m\<close> caches, for every column, the columns within the inhibition radius.
\<close>

record SpatialPooler =
  numColumns_m :: nat
  columnDimensions_m :: "nat list"
  localAreaDensity_m :: real
  numActiveColumnsPerInhArea_m :: nat
  globalInhibition_m :: bool
  inhibitionRadius_m :: nat
  stimulusThreshold_m :: nat
  boostStrength_m :: real
  boostFactors_m :: "real list"
  boostedOverlaps_m :: "real list"
  neighborMap_m :: "nat list list"
  iterationNum_m :: nat
  iterationLearnNum_m :: nat
  connections_m :: Connections

text \<open>
  The postcondition of \<^verbatim>\<open>std::sort(first, last, cmp)\<close>: a rearrangement in which no
  element is ordered before an earlier one. Like \<^verbatim>\<open>std::nth_element\<close>, the library
  function is a parameter of the model.
\<close>

definition sort_post :: "('a \<Rightarrow> 'a \<Rightarrow> bool) \<Rightarrow> 'a list \<Rightarrow> 'a list \<Rightarrow> bool" where
  "sort_post cmp xs ys =
     (mset ys = mset xs \<and>
      (\<forall>i < length ys. \<forall>j < length ys. i < j \<longrightarrow> \<not> cmp (ys ! j) (ys ! i)))"

text \<open>\<^verbatim>\<open>SpatialPooler::updateBookeepingVars_\<close>.\<close>

definition updateBookeepingVars_m :: "SpatialPooler \<Rightarrow> bool \<Rightarrow> SpatialPooler" where
  "updateBookeepingVars_m sp learn =
     (let sp1 = sp\<lparr> iterationNum_m := iterationNum_m sp + 1 \<rparr>
      in if learn then sp1\<lparr> iterationLearnNum_m := iterationLearnNum_m sp1 + 1 \<rparr> else sp1)"

text \<open>
  \<^verbatim>\<open>SpatialPooler::boostOverlaps_\<close> returns the new contents of the vector
  \<^verbatim>\<open>boosted\<close>, which is the member \<^verbatim>\<open>boostedOverlaps_\<close>. An integer overlap is
  converted to \<^verbatim>\<open>float\<close> before it is stored or multiplied.
\<close>

definition boostOverlaps_m :: "SpatialPooler \<Rightarrow> nat list \<Rightarrow> error + real list" where
  "boostOverlaps_m sp overlaps =
     (if boostStrength_m sp < Epsilon then Inr (map (\<lambda>overlap. fl32 (real overlap)) overlaps)
      else if numColumns_m sp > length overlaps \<or> numColumns_m sp > length (boostFactors_m sp)
              \<or> numColumns_m sp > length (boostedOverlaps_m sp)
      then Inl Undefined
      else Inr (map (\<lambda>i. fmul (fl32 (real (overlaps ! i))) (boostFactors_m sp ! i))
                  [0 ..< numColumns_m sp]
                @ drop (numColumns_m sp) (boostedOverlaps_m sp)))"

text \<open>
  The helper \<^verbatim>\<open>getAreaND_\<close>: a float product of a float minimum for every dimension;
  the cast to \<^verbatim>\<open>UInt\<close> truncates.
\<close>

definition getAreaND_m :: "nat list \<Rightarrow> real \<Rightarrow> nat" where
  "getAreaND_m dimensions radius =
     nat \<lfloor>foldl (\<lambda>area dim. fmul area (min (fl32 (real dim)) (fadd (fmul 2 radius) 1)))
            1 dimensions\<rfloor>"

text \<open>
  The comparator of \<^verbatim>\<open>inhibitColumnsGlobal_\<close>: \<open>compare overlaps a b\<close> holds when
  column \<open>a\<close> is ordered before column \<open>b\<close>.
\<close>

definition compare :: "real list \<Rightarrow> nat \<Rightarrow> nat \<Rightarrow> bool" where
  "compare overlaps a b =
     (if overlaps ! a = overlaps ! b then a > b else overlaps ! a > overlaps ! b)"

text \<open>The final loop of \<^verbatim>\<open>inhibitColumnsGlobal_\<close> pops sub-threshold columns off the end.\<close>

definition popWhile :: "('a \<Rightarrow> bool) \<Rightarrow> 'a list \<Rightarrow> 'a list" where
  "popWhile P xs = rev (dropWhile P (rev xs))"

text \<open>
  \<^verbatim>\<open>SpatialPooler::inhibitColumnsGlobal_\<close>. \<open>numDesired\<close> is the float product of the
  density and the column count, truncated. \<^verbatim>\<open>resize(numDesired)\<close> keeps the first
  \<open>numDesired\<close> columns of the partitioned vector. The stimulus threshold, an integer, is
  converted to \<^verbatim>\<open>float\<close> for the comparison with an overlap.
\<close>

definition inhibitColumnsGlobal_m ::
  "((nat \<Rightarrow> nat \<Rightarrow> bool) \<Rightarrow> nat \<Rightarrow> nat list \<Rightarrow> nat list)
     \<Rightarrow> ((nat \<Rightarrow> nat \<Rightarrow> bool) \<Rightarrow> nat list \<Rightarrow> nat list)
     \<Rightarrow> SpatialPooler \<Rightarrow> real list \<Rightarrow> real \<Rightarrow> error + nat list" where
  "inhibitColumnsGlobal_m nth_element std_sort sp overlaps density =
     (let numDesired = nat \<lfloor>fmul density (fl32 (real (numColumns_m sp)))\<rfloor> in
      if \<not> numDesired > 0 then Inl CheckFailed
      else if numDesired > numColumns_m sp \<or> numColumns_m sp > length overlaps
      then Inl Undefined
      else
        let activeColumns = [0 ..< numColumns_m sp];
            partitioned = nth_element (compare overlaps) numDesired activeColumns;
            winners = std_sort (compare overlaps) (take numDesired partitioned)
        in Inr (popWhile (\<lambda>column. overlaps ! column < fl32 (real (stimulusThreshold_m sp)))
                  winners))"

text \<open>
  The neighbour loop of \<^verbatim>\<open>inhibitColumnsLocal_\<close> counts the neighbours that beat the
  column and leaves the loop once \<open>numDesiredLocalActive\<close> of them are found.
\<close>

fun countBigger ::
  "real list \<Rightarrow> bool list \<Rightarrow> nat \<Rightarrow> nat \<Rightarrow> nat \<Rightarrow> nat list \<Rightarrow> error + nat" where
  "countBigger overlaps alreadyUsedColumn column numDesiredLocalActive otherBigger [] =
     Inr otherBigger"
| "countBigger overlaps alreadyUsedColumn column numDesiredLocalActive otherBigger
     (neighbor # rest) =
     (if neighbor \<ge> length overlaps \<or> neighbor \<ge> length alreadyUsedColumn
      then Inl Undefined
      else if overlaps ! neighbor > overlaps ! column
              \<or> (overlaps ! neighbor = overlaps ! column \<and> alreadyUsedColumn ! neighbor)
      then (if otherBigger + 1 \<ge> numDesiredLocalActive then Inr (otherBigger + 1)
            else countBigger overlaps alreadyUsedColumn column numDesiredLocalActive
                   (otherBigger + 1) rest)
      else countBigger overlaps alreadyUsedColumn column numDesiredLocalActive
             otherBigger rest)"

fun localLoop ::
  "SpatialPooler \<Rightarrow> real list \<Rightarrow> real \<Rightarrow> nat list \<Rightarrow> bool list \<Rightarrow> nat list
     \<Rightarrow> error + nat list" where
  "localLoop sp overlaps density activeColumns alreadyUsedColumn [] = Inr activeColumns"
| "localLoop sp overlaps density activeColumns alreadyUsedColumn (column # rest) =
     (if column \<ge> length overlaps then Inl Undefined
      else if overlaps ! column < fl32 (real (stimulusThreshold_m sp))
      then localLoop sp overlaps density activeColumns alreadyUsedColumn rest
      else if column \<ge> length (neighborMap_m sp) then Inl OutOfRange
      else
        let hood = neighborMap_m sp ! column;
            numNeighbors = length hood;
            numDesiredLocalActive =
              nat \<lfloor>fadd (1 / 2) (fmul density (fl32 (real (numNeighbors + 1))))\<rfloor>
        in
        bindE (countBigger overlaps alreadyUsedColumn column numDesiredLocalActive 0 hood)
          (\<lambda>otherBigger.
             if otherBigger < numDesiredLocalActive
             then localLoop sp overlaps density (activeColumns @ [column])
                    (alreadyUsedColumn[column := True]) rest
             else localLoop sp overlaps density activeColumns alreadyUsedColumn rest))"

text \<open>\<^verbatim>\<open>SpatialPooler::inhibitColumnsLocal_\<close>.\<close>

definition inhibitColumnsLocal_m :: "SpatialPooler \<Rightarrow> real list \<Rightarrow> real \<Rightarrow> error + nat list" where
  "inhibitColumnsLocal_m sp overlaps density =
     localLoop sp overlaps density [] (replicate (numColumns_m sp) False)
       [0 ..< numColumns_m sp]"

text \<open>
  The density that \<^verbatim>\<open>inhibitColumns_\<close> computes: the float quotient of the two
  integers, each converted to \<^verbatim>\<open>float\<close>. The constant \<^verbatim>\<open>MAX_LOCALAREADENSITY\<close> is
  declared in a header that is not among the sources and is a parameter here. A float
  division by an area of zero gives infinity, whose minimum with the constant is the
  constant.
\<close>

definition inhibitionDensity :: "real \<Rightarrow> SpatialPooler \<Rightarrow> real" where
  "inhibitionDensity MAX_LOCALAREADENSITY sp =
     (if numActiveColumnsPerInhArea_m sp > 0 then
        let inhibitionArea = getAreaND_m (columnDimensions_m sp)
                               (fl32 (real (inhibitionRadius_m sp)))
        in if inhibitionArea = 0 then MAX_LOCALAREADENSITY
           else min (fdiv (fl32 (real (numActiveColumnsPerInhArea_m sp)))
                       (fl32 (real inhibitionArea)))
                  MAX_LOCALAREADENSITY
      else localAreaDensity_m sp)"

text \<open>
  \<^verbatim>\<open>SpatialPooler::inhibitColumns_\<close>. The largest column dimension is read only when
  global inhibition is off; \<^verbatim>\<open>max_element\<close> of no dimensions cannot be dereferenced.
\<close>

definition inhibitColumns_m ::
  "real \<Rightarrow> ((nat \<Rightarrow> nat \<Rightarrow> bool) \<Rightarrow> nat \<Rightarrow> nat list \<Rightarrow> nat list)
     \<Rightarrow> ((nat \<Rightarrow> nat \<Rightarrow> bool) \<Rightarrow> nat list \<Rightarrow> nat list)
     \<Rightarrow> SpatialPooler \<Rightarrow> real list \<Rightarrow> error + nat list" where
  "inhibitColumns_m MAX_LOCALAREADENSITY nth_element std_sort sp overlaps =
     (let density = inhibitionDensity MAX_LOCALAREADENSITY sp in
      if globalInhibition_m sp
      then inhibitColumnsGlobal_m nth_element std_sort sp overlaps density
      else if columnDimensions_m sp = [] then Inl Undefined
      else if inhibitionRadius_m sp > Max (set (columnDimensions_m sp))
      then inhibitColumnsGlobal_m nth_element std_sort sp overlaps density
      else inhibitColumnsLocal_m sp overlaps density)"

text \<open>
  Modelled from the spec: \<^verbatim>\<open>Connections::computeActivityWeighted\<close>, which
  \<^verbatim>\<open>SpatialPooler::compute\<close> calls with the sparse input and its weights, is not among
  the sources. Step 2 of the spec's \<^verbatim>\<open>compute\<close> obtains the overlaps ``via
  Connections.computeActivity'', so the call is modelled as \<open>computeActivity\<close> on the
  sparse indices; the weights are not used.
\<close>

definition computeActivityWeighted ::
  "Connections \<Rightarrow> CellIdx list \<Rightarrow> real list \<Rightarrow> bool \<Rightarrow> error + (nat list \<times> Connections)" where
  "computeActivityWeighted c activePresynapticCells weights learn =
     computeActivity c activePresynapticCells learn"

text \<open>
  \<^verbatim>\<open>SpatialPooler::compute\<close> up to its learning phase. The input SDR is given by its
  sparse indices and weights. The result is the returned vector of overlaps, the sorted
  list of active columns written to the output SDR, and the pooler. The learning phase
  that follows when \<open>learn\<close> is set reads these two values and changes neither.
\<close>

definition compute ::
  "real \<Rightarrow> ((nat \<Rightarrow> nat \<Rightarrow> bool) \<Rightarrow> nat \<Rightarrow> nat list \<Rightarrow> nat list)
     \<Rightarrow> ((nat \<Rightarrow> nat \<Rightarrow> bool) \<Rightarrow> nat list \<Rightarrow> nat list)
     \<Rightarrow> SpatialPooler \<Rightarrow> CellIdx list \<Rightarrow> real list \<Rightarrow> bool
     \<Rightarrow> error + (nat list \<times> nat list \<times> SpatialPooler)" where
  "compute MAX_LOCALAREADENSITY nth_element std_sort sp inputSparse inputWeights learn =
     (let sp1 = updateBookeepingVars_m sp learn in
      bindE (computeActivityWeighted (connections_m sp1) inputSparse inputWeights learn)
        (\<lambda>(overlaps, conn).
           bindE (boostOverlaps_m sp1 overlaps)
             (\<lambda>boosted.
                let sp2 = sp1\<lparr> connections_m := conn, boostedOverlaps_m := boosted \<rparr> in
                bindE (inhibitColumns_m MAX_LOCALAREADENSITY nth_element std_sort sp2 boosted)
                  (\<lambda>activeVector. Inr (overlaps, sort activeVector, sp2)))))"

section \<open>Reference library functions and example states\<close>

text \<open>
  An insertion sort by a comparator. It is one admissible behaviour of
  \<^verbatim>\<open>std::sort\<close> and, as a full sort, of \<^verbatim>\<open>std::nth_element\<close>; the examples run
  the model with it.
\<close>

fun insertBy :: "('a \<Rightarrow> 'a \<Rightarrow> bool) \<Rightarrow> 'a \<Rightarrow> 'a list \<Rightarrow> 'a list" where
  "insertBy cmp x [] = [x]"
| "insertBy cmp x (y # ys) = (if cmp y x then y # insertBy cmp x ys else x # y # ys)"

definition sortBy :: "('a \<Rightarrow> 'a \<Rightarrow> bool) \<Rightarrow> 'a list \<Rightarrow> 'a list" where
  "sortBy cmp xs = foldr (insertBy cmp) xs []"

definition nthElementBy :: "('a \<Rightarrow> 'a \<Rightarrow> bool) \<Rightarrow> nat \<Rightarrow> 'a list \<Rightarrow> 'a list" where
  "nthElementBy cmp n xs = sortBy cmp xs"

text \<open>
  The connections of a pooler with two columns and one input: each column owns the
  segment of its index, and column 1 has one connected synapse from input 0.
\<close>

definition connTwo :: Connections where
  "connTwo =
     \<lparr> cells_m = [\<lparr> segments = [0] \<rparr>, \<lparr> segments = [1] \<rparr>],
       segments_m = [\<lparr> synapses = [], numConnected = 0, cell = 0 \<rparr>,
                     \<lparr> synapses = [0], numConnected = 1, cell = 1 \<rparr>],
       destroyedSegments_m = [],
       synapses_m = [\<lparr> presynapticCell = 0, permanence = 6 / 10, segment = 1,
                       presynapticMapIndex_m = 0 \<rparr>],
       destroyedSynapses_m = [],
       potentialSynapsesForPresynapticCell_m = [0 \<mapsto> []],
       connectedSynapsesForPresynapticCell_m = [0 \<mapsto> [0]],
       potentialSegmentsForPresynapticCell_m = [0 \<mapsto> []],
       connectedSegmentsForPresynapticCell_m = [0 \<mapsto> [1]],
       connectedThreshold_m = 1 / 2 - Epsilon, iteration_m = 0, timeseries_m = False,
       previousUpdates_m = [], currentUpdates_m = [], prunedSyns_m = 0, prunedSegs_m = 0 \<rparr>"

text \<open>
  A pooler over \<open>connTwo\<close> with one active column per inhibition area and no stimulus
  threshold. Global inhibition is off and the inhibition radius is 3.
\<close>

definition poolerTwo :: SpatialPooler where
  "poolerTwo =
     \<lparr> numColumns_m = 2, columnDimensions_m = [2], localAreaDensity_m = 0,
       numActiveColumnsPerInhArea_m = 1, globalInhibition_m = False, inhibitionRadius_m = 3,
       stimulusThreshold_m = 0, boostStrength_m = 0, boostFactors_m = [1, 1],
       boostedOverlaps_m = [0, 0], neighborMap_m = [[1], [0]], iterationNum_m = 0,
       iterationLearnNum_m = 0, connections_m = connTwo \<rparr>"

text \<open>
  A pooler over \<open>connTwo\<close> with global inhibition, a stimulus threshold of 2 and a boost
  factor of 3 on column 1.
\<close>

definition poolerBoost :: SpatialPooler where
  "poolerBoost =
     \<lparr> numColumns_m = 2, columnDimensions_m = [2], localAreaDensity_m = 0,
       numActiveColumnsPerInhArea_m = 1, globalInhibition_m = True, inhibitionRadius_m = 2,
       stimulusThreshold_m = 2, boostStrength_m = 1, boostFactors_m = [1, 3],
       boostedOverlaps_m = [0, 0], neighborMap_m = [[1], [0]], iterationNum_m = 0,
       iterationLearnNum_m = 0, connections_m = connTwo \<rparr>"

text \<open>Three columns; only the column count matters where this pooler is used.\<close>

definition poolerThree :: SpatialPooler where
  "poolerThree = poolerTwo\<lparr> numColumns_m := 3, columnDimensions_m := [3] \<rparr>"


text \<open>
  One cell with one segment that has one potential synapse. Its permanence is the float
  nearest to 0.02 and the stored threshold is the float that \<^verbatim>\<open>0.1f - 1e-6f\<close> gives.
\<close>

definition connUlp :: Connections where
  "connUlp =
     \<lparr> cells_m = [\<lparr> segments = [0] \<rparr>],
       segments_m = [\<lparr> synapses = [0], numConnected = 0, cell = 0 \<rparr>],
       destroyedSegments_m = [],
       synapses_m = [\<lparr> presynapticCell = 0, permanence = 5368709 / 2 ^ 28, segment = 0,
                       presynapticMapIndex_m = 0 \<rparr>],
       destroyedSynapses_m = [],
       potentialSynapsesForPresynapticCell_m = [0 \<mapsto> [0]],
       connectedSynapsesForPresynapticCell_m = Map.empty,
       potentialSegmentsForPresynapticCell_m = [0 \<mapsto> [0]],
       connectedSegmentsForPresynapticCell_m = Map.empty,
       connectedThreshold_m = 13421639 / 2 ^ 27, iteration_m = 0, timeseries_m = False,
       previousUpdates_m = [], currentUpdates_m = [], prunedSyns_m = 0, prunedSegs_m = 0 \<rparr>"

text \<open>
  The two columns of \<open>connTwo\<close> with the synapse of column 1 at permanence \<open>Epsilon\<close>, a
  potential synapse.
\<close>

definition connEps :: Connections where
  "connEps =
     \<lparr> cells_m = [\<lparr> segments = [0] \<rparr>, \<lparr> segments = [1] \<rparr>],
       segments_m = [\<lparr> synapses = [], numConnected = 0, cell = 0 \<rparr>,
                     \<lparr> synapses = [0], numConnected = 0, cell = 1 \<rparr>],
       destroyedSegments_m = [],
       synapses_m = [\<lparr> presynapticCell = 0, permanence = Epsilon, segment = 1,
                       presynapticMapIndex_m = 0 \<rparr>],
       destroyedSynapses_m = [],
       potentialSynapsesForPresynapticCell_m = [0 \<mapsto> [0]],
       connectedSynapsesForPresynapticCell_m = Map.empty,
       potentialSegmentsForPresynapticCell_m = [0 \<mapsto> [1]],
       connectedSegmentsForPresynapticCell_m = Map.empty,
       connectedThreshold_m = 1 / 2 - Epsilon, iteration_m = 0, timeseries_m = False,
       previousUpdates_m = [], currentUpdates_m = [], prunedSyns_m = 0, prunedSegs_m = 0 \<rparr>"

text \<open>
  One cell with two segments and a threshold of 0.75. Segment 0 has potential synapses of
  permanence 0.5 and \<open>1 / 8192\<close>, segment 1 has one potential synapse of permanence 0.5.
\<close>

definition connTie :: Connections where
  "connTie =
     \<lparr> cells_m = [\<lparr> segments = [0, 1] \<rparr>],
       segments_m = [\<lparr> synapses = [0, 1], numConnected = 0, cell = 0 \<rparr>,
                     \<lparr> synapses = [2], numConnected = 0, cell = 0 \<rparr>],
       destroyedSegments_m = [],
       synapses_m = [\<lparr> presynapticCell = 0, permanence = 1 / 2, segment = 0,
                       presynapticMapIndex_m = 0 \<rparr>,
                     \<lparr> presynapticCell = 1, permanence = 1 / 8192, segment = 0,
                       presynapticMapIndex_m = 0 \<rparr>,
                     \<lparr> presynapticCell = 2, permanence = 1 / 2, segment = 1,
                       presynapticMapIndex_m = 0 \<rparr>],
       destroyedSynapses_m = [],
       potentialSynapsesForPresynapticCell_m = [0 \<mapsto> [0], 1 \<mapsto> [1], 2 \<mapsto> [2]],
       connectedSynapsesForPresynapticCell_m = Map.empty,
       potentialSegmentsForPresynapticCell_m = [0 \<mapsto> [0], 1 \<mapsto> [0], 2 \<mapsto> [1]],
       connectedSegmentsForPresynapticCell_m = Map.empty,
       connectedThreshold_m = 3 / 4, iteration_m = 0, timeseries_m = False,
       previousUpdates_m = [], currentUpdates_m = [], prunedSyns_m = 0, prunedSegs_m = 0 \<rparr>"

text \<open>
  A pooler with 200 columns in one dimension and global inhibition, which asks for 10 active
  columns per inhibition area; the inhibition radius is the one global inhibition sets.
\<close>

definition poolerScenario :: SpatialPooler where
  "poolerScenario =
     \<lparr> numColumns_m = 200, columnDimensions_m = [200], localAreaDensity_m = 0,
       numActiveColumnsPerInhArea_m = 10, globalInhibition_m = True, inhibitionRadius_m = 200,
       stimulusThreshold_m = 1, boostStrength_m = 0, boostFactors_m = replicate 200 1,
       boostedOverlaps_m = replicate 200 0, neighborMap_m = [], iterationNum_m = 0,
       iterationLearnNum_m = 0, connections_m = connTwo \<rparr>"


section \<open>The invariants of the data model\<close>

text \<open>
  A synapse handle is live when it is inside the synapse array and not on the free-list;
  a live synapse is connected when its permanence reaches the stored threshold
  \<open>connectedThreshold_m\<close>, which \<open>initialize\<close> sets to the requested threshold minus
  \<open>Epsilon\<close>.
\<close>

definition live :: "Connections \<Rightarrow> Synapse \<Rightarrow> bool" where
  "live c y = (y < length (synapses_m c) \<and> y \<notin> set (destroyedSynapses_m c))"

definition isConnected :: "Connections \<Rightarrow> Synapse \<Rightarrow> bool" where
  "isConnected c y = (permanence (synapses_m c ! y) \<ge> connectedThreshold_m c)"

definition liveSegment :: "Connections \<Rightarrow> Segment \<Rightarrow> bool" where
  "liveSegment c sg = (sg < length (segments_m c) \<and> sg \<notin> set (destroyedSegments_m c))"

text \<open>
  Invariant 4 for one of the two families of presynaptic lists. \<open>M\<close> says which synapses
  belong to the family. The segment list is parallel to the synapse list; every listed
  synapse belongs to the family, names the key as its presynaptic cell and its position as
  its back-index; every synapse of the family is found at its back-index.
\<close>

definition presynListsOK ::
  "SynapseData list \<Rightarrow> (Synapse \<Rightarrow> bool) \<Rightarrow> (CellIdx \<rightharpoonup> Synapse list)
     \<Rightarrow> (CellIdx \<rightharpoonup> Segment list) \<Rightarrow> bool" where
  "presynListsOK syns M synMap segMap =
     ((\<forall>a. length (entry segMap a) = length (entry synMap a)) \<and>
      (\<forall>a. \<forall>i < length (entry synMap a).
         entry synMap a ! i < length syns \<and> M (entry synMap a ! i) \<and>
         presynapticCell (syns ! (entry synMap a ! i)) = a \<and>
         presynapticMapIndex_m (syns ! (entry synMap a ! i)) = i \<and>
         entry segMap a ! i = segment (syns ! (entry synMap a ! i))) \<and>
      (\<forall>y < length syns. M y \<longrightarrow>
         presynapticMapIndex_m (syns ! y) < length (entry synMap (presynapticCell (syns ! y))) \<and>
         entry synMap (presynapticCell (syns ! y)) ! presynapticMapIndex_m (syns ! y) = y))"

text \<open>Invariant 1: cells and their segments; the segment free-list.\<close>

definition wfCells :: "Connections \<Rightarrow> bool" where
  "wfCells c =
     ((\<forall>cl < length (cells_m c).
         distinct (segments (cells_m c ! cl)) \<and>
         (\<forall>sg \<in> set (segments (cells_m c ! cl)).
            liveSegment c sg \<and> cell (segments_m c ! sg) = cl)) \<and>
      (\<forall>sg. liveSegment c sg \<longrightarrow>
         cell (segments_m c ! sg) < length (cells_m c) \<and>
         sg \<in> set (segments (cells_m c ! cell (segments_m c ! sg)))) \<and>
      distinct (destroyedSegments_m c) \<and>
      (\<forall>sg \<in> set (destroyedSegments_m c).
         sg < length (segments_m c) \<and> synapses (segments_m c ! sg) = []))"

text \<open>
  Invariants 2, 3 and 5: segments and their synapses, the cached count of connected
  synapses, no two synapses of a segment from one presynaptic cell; the synapse free-list.
\<close>

definition wfSegments :: "Connections \<Rightarrow> bool" where
  "wfSegments c =
     ((\<forall>sg < length (segments_m c).
         distinct (synapses (segments_m c ! sg)) \<and>
         (\<forall>y \<in> set (synapses (segments_m c ! sg)).
            live c y \<and> segment (synapses_m c ! y) = sg) \<and>
         distinct (map (\<lambda>y. presynapticCell (synapses_m c ! y)) (synapses (segments_m c ! sg))) \<and>
         numConnected (segments_m c ! sg)
           = length (filter (isConnected c) (synapses (segments_m c ! sg)))) \<and>
      (\<forall>y. live c y \<longrightarrow>
         segment (synapses_m c ! y) < length (segments_m c) \<and>
         y \<in> set (synapses (segments_m c ! segment (synapses_m c ! y)))) \<and>
      distinct (destroyedSynapses_m c) \<and>
      (\<forall>y \<in> set (destroyedSynapses_m c). y < length (synapses_m c)))"

text \<open>
  Invariant 6 for live synapses, the range of the stored threshold, and the capacity of
  the synapse array that \<open>createSynapse\<close> checks.
\<close>

definition wfPermanences :: "Connections \<Rightarrow> bool" where
  "wfPermanences c =
     ((\<forall>y. live c y \<longrightarrow>
         minPermanence \<le> permanence (synapses_m c ! y) \<and>
         permanence (synapses_m c ! y) \<le> maxPermanence) \<and>
      connectedThreshold_m c \<le> maxPermanence \<and>
      length (synapses_m c) \<le> Synapse_max)"

text \<open>Invariant 4 for the connected and for the potential lists.\<close>

definition wfPresyn :: "Connections \<Rightarrow> bool" where
  "wfPresyn c =
     (presynListsOK (synapses_m c) (\<lambda>y. live c y \<and> isConnected c y)
        (connectedSynapsesForPresynapticCell_m c) (connectedSegmentsForPresynapticCell_m c) \<and>
      presynListsOK (synapses_m c) (\<lambda>y. live c y \<and> \<not> isConnected c y)
        (potentialSynapsesForPresynapticCell_m c) (potentialSegmentsForPresynapticCell_m c))"

definition wellFormed :: "Connections \<Rightarrow> bool" where
  "wellFormed c = (wfCells c \<and> wfSegments c \<and> wfPermanences c \<and> wfPresyn c)"

text \<open>
  What an operation on permanences leaves alone: the cells, both free-lists, the sizes of
  the arrays, the synapse list and the cell of every segment, the presynaptic cell and
  the segment of every synapse, and the threshold.
\<close>

definition sameShape :: "Connections \<Rightarrow> Connections \<Rightarrow> bool" where
  "sameShape c c' =
     (cells_m c' = cells_m c \<and>
      destroyedSegments_m c' = destroyedSegments_m c \<and>
      destroyedSynapses_m c' = destroyedSynapses_m c \<and>
      length (segments_m c') = length (segments_m c) \<and>
      length (synapses_m c') = length (synapses_m c) \<and>
      (\<forall>sg. synapses (segments_m c' ! sg) = synapses (segments_m c ! sg) \<and>
            cell (segments_m c' ! sg) = cell (segments_m c ! sg)) \<and>
      (\<forall>y. presynapticCell (synapses_m c' ! y) = presynapticCell (synapses_m c ! y) \<and>
           segment (synapses_m c' ! y) = segment (synapses_m c ! y)) \<and>
      connectedThreshold_m c' = connectedThreshold_m c \<and>
      timeseries_m c' = timeseries_m c)"

text \<open>The permanence that \<open>updateSynapsePermanence\<close> writes.\<close>

definition clampPermanence :: "Permanence \<Rightarrow> Permanence" where
  "clampPermanence p = max (min p maxPermanence) minPermanence"

text \<open>
  The effect of writing permanence \<open>v\<close> to synapse \<open>sy\<close>: the shape is kept, no other
  permanence changes, and the bookkeeping of \<open>adaptSegment\<close> is untouched.
\<close>

definition permanenceWritten :: "Connections \<Rightarrow> Synapse \<Rightarrow> Permanence \<Rightarrow> Connections \<Rightarrow> bool" where
  "permanenceWritten c sy v c' =
     (sameShape c c' \<and>
      (\<forall>y. permanence (synapses_m c' ! y)
             = (if y = sy then v else permanence (synapses_m c ! y))) \<and>
      previousUpdates_m c' = previousUpdates_m c \<and>
      currentUpdates_m c' = currentUpdates_m c \<and>
      prunedSyns_m c' = prunedSyns_m c \<and>
      prunedSegs_m c' = prunedSegs_m c \<and>
      iteration_m c' = iteration_m c)"

text \<open>
  The effect of destroying the live synapse \<open>sy\<close>: it is erased from the list of its
  segment and pushed on the free-list. The data of every synapse slot, also of the
  destroyed one, keeps its presynaptic cell, segment and permanence.
\<close>

definition synapseRemoved :: "Connections \<Rightarrow> Synapse \<Rightarrow> Connections \<Rightarrow> bool" where
  "synapseRemoved c sy c' =
     (cells_m c' = cells_m c \<and>
      destroyedSegments_m c' = destroyedSegments_m c \<and>
      destroyedSynapses_m c' = destroyedSynapses_m c @ [sy] \<and>
      length (segments_m c') = length (segments_m c) \<and>
      length (synapses_m c') = length (synapses_m c) \<and>
      (\<forall>sg. cell (segments_m c' ! sg) = cell (segments_m c ! sg) \<and>
            synapses (segments_m c' ! sg)
              = (if sg = segment (synapses_m c ! sy)
                 then eraseFromSegment sy (synapses (segments_m c ! sg))
                 else synapses (segments_m c ! sg))) \<and>
      (\<forall>y. presynapticCell (synapses_m c' ! y) = presynapticCell (synapses_m c ! y) \<and>
           segment (synapses_m c' ! y) = segment (synapses_m c ! y) \<and>
           permanence (synapses_m c' ! y) = permanence (synapses_m c ! y)) \<and>
      connectedThreshold_m c' = connectedThreshold_m c \<and>
      timeseries_m c' = timeseries_m c \<and>
      previousUpdates_m c' = previousUpdates_m c \<and>
      currentUpdates_m c' = currentUpdates_m c \<and>
      prunedSyns_m c' = prunedSyns_m c \<and>
      prunedSegs_m c' = prunedSegs_m c \<and>
      iteration_m c' = iteration_m c)"

text \<open>
  The effect of destroying the synapses in \<open>D\<close>: they are pushed on the free-list and leave
  the lists of their segments, a segment without a synapse in \<open>D\<close> keeps its list, and the
  data of every synapse slot is kept.
\<close>

definition synapsesDestroyed :: "Connections \<Rightarrow> Synapse set \<Rightarrow> Connections \<Rightarrow> bool" where
  "synapsesDestroyed c D c' =
     (cells_m c' = cells_m c \<and>
      destroyedSegments_m c' = destroyedSegments_m c \<and>
      set (destroyedSynapses_m c') = set (destroyedSynapses_m c) \<union> D \<and>
      length (segments_m c') = length (segments_m c) \<and>
      length (synapses_m c') = length (synapses_m c) \<and>
      (\<forall>sg. cell (segments_m c' ! sg) = cell (segments_m c ! sg)) \<and>
      (\<forall>sg < length (segments_m c).
         set (synapses (segments_m c' ! sg)) = set (synapses (segments_m c ! sg)) - D \<and>
         (set (synapses (segments_m c ! sg)) \<inter> D = {} \<longrightarrow>
            synapses (segments_m c' ! sg) = synapses (segments_m c ! sg))) \<and>
      (\<forall>y. presynapticCell (synapses_m c' ! y) = presynapticCell (synapses_m c ! y) \<and>
           segment (synapses_m c' ! y) = segment (synapses_m c ! y) \<and>
           permanence (synapses_m c' ! y) = permanence (synapses_m c ! y)) \<and>
      connectedThreshold_m c' = connectedThreshold_m c \<and>
      timeseries_m c' = timeseries_m c \<and>
      previousUpdates_m c' = previousUpdates_m c \<and>
      currentUpdates_m c' = currentUpdates_m c \<and>
      prunedSyns_m c' = prunedSyns_m c \<and>
      prunedSegs_m c' = prunedSegs_m c \<and>
      iteration_m c' = iteration_m c)"

text \<open>
  The effect of \<open>destroySegment\<close> on a live segment: its synapses are destroyed, it leaves
  the list of its cell and is pushed on the free-list of segments.
\<close>

definition segmentDestroyed :: "Connections \<Rightarrow> Segment \<Rightarrow> Connections \<Rightarrow> bool" where
  "segmentDestroyed c sg c' =
     (cells_m c' = (cells_m c)[cell (segments_m c ! sg) :=
         (cells_m c ! cell (segments_m c ! sg))
           \<lparr> segments := remove1 sg (segments (cells_m c ! cell (segments_m c ! sg))) \<rparr>] \<and>
      destroyedSegments_m c' = destroyedSegments_m c @ [sg] \<and>
      set (destroyedSynapses_m c')
        = set (destroyedSynapses_m c) \<union> set (synapses (segments_m c ! sg)) \<and>
      length (segments_m c') = length (segments_m c) \<and>
      length (synapses_m c') = length (synapses_m c) \<and>
      (\<forall>s. cell (segments_m c' ! s) = cell (segments_m c ! s)) \<and>
      (\<forall>s < length (segments_m c).
         synapses (segments_m c' ! s) = (if s = sg then [] else synapses (segments_m c ! s))) \<and>
      (\<forall>y. presynapticCell (synapses_m c' ! y) = presynapticCell (synapses_m c ! y) \<and>
           segment (synapses_m c' ! y) = segment (synapses_m c ! y) \<and>
           permanence (synapses_m c' ! y) = permanence (synapses_m c ! y)) \<and>
      connectedThreshold_m c' = connectedThreshold_m c \<and>
      timeseries_m c' = timeseries_m c \<and>
      previousUpdates_m c' = previousUpdates_m c \<and>
      currentUpdates_m c' = currentUpdates_m c \<and>
      prunedSyns_m c' = prunedSyns_m c \<and>
      prunedSegs_m c' = prunedSegs_m c \<and>
      iteration_m c' = iteration_m c)"



section \<open>Binary32 rounding\<close>

lemma roundHalfEven_of_int [simp]: "roundHalfEven (of_int n) = n"
  by (simp add: roundHalfEven_def)

lemma roundHalfEven_range: "roundHalfEven q = \<lfloor>q\<rfloor> \<or> roundHalfEven q = \<lfloor>q\<rfloor> + 1"
  by (simp add: roundHalfEven_def Let_def)

lemma roundHalfEven_mono:
  assumes "q \<le> r"
  shows "roundHalfEven q \<le> roundHalfEven r"
proof (cases "\<lfloor>q\<rfloor> = \<lfloor>r\<rfloor>")
  case True
  then show ?thesis using assms by (auto simp: roundHalfEven_def Let_def)
next
  case False
  then have "\<lfloor>q\<rfloor> + 1 \<le> \<lfloor>r\<rfloor>" using floor_mono[OF assms] by linarith
  then show ?thesis using roundHalfEven_range[of q] roundHalfEven_range[of r] by linarith
qed

lemma roundHalfEven_ge: "of_int n \<le> q \<Longrightarrow> n \<le> roundHalfEven q"
  using roundHalfEven_mono[of "of_int n" q] by simp

lemma roundHalfEven_le: "q \<le> of_int n \<Longrightarrow> roundHalfEven q \<le> n"
  using roundHalfEven_mono[of q "of_int n"] by simp

lemma floorLog2_bounds:
  assumes "0 < x"
  shows "2 powi floorLog2 x \<le> x" "x < 2 powi (floorLog2 x + 1)"
proof -
  have "2 powi floorLog2 x \<le> x \<and> x < 2 powi (floorLog2 x + 1)"
  proof (cases "1 \<le> x")
    case True
    define n where "n = \<lfloor>x\<rfloor>"
    have n: "0 < n" "of_int n \<le> x" "x < of_int n + 1" using True by (auto simp: n_def; linarith)+
    define k where "k = bitlen n - 1"
    have k0: "0 \<le> k" using n(1) by (simp add: k_def bitlen_alt_def)
    have b: "2 ^ nat k \<le> n" "n < 2 ^ nat (k + 1)"
      using bitlen_bounds[OF n(1)] by (simp_all add: k_def)
    have "n + 1 \<le> 2 ^ nat (k + 1)" using b(2) by simp
    then have "of_int n + 1 \<le> (2::real) ^ nat (k + 1)"
      using of_int_le_iff[where 'a = real, of "n + 1" "2 ^ nat (k + 1)"] by simp
    moreover have "(2::real) ^ nat k \<le> of_int n"
      using b(1) of_int_le_iff[where 'a = real, of "2 ^ nat k" n] by simp
    ultimately have "(2::real) ^ nat k \<le> x" "x < 2 ^ nat (k + 1)" using n by linarith+
    moreover have "floorLog2 x = k" using True by (simp add: floorLog2_def k_def n_def)
    ultimately show ?thesis using k0 by (simp add: power_int_def)
  next
    case False
    define y where "y = 1 / x"
    have y: "1 < y" using False assms by (simp add: y_def)
    define c where "c = \<lceil>y\<rceil>"
    have c: "y \<le> of_int c" "of_int c - 1 < y" "0 < c - 1"
      using y by (auto simp: c_def; linarith)+
    define j where "j = bitlen (c - 1)"
    have j1: "1 \<le> j" using c(3) by (simp add: j_def bitlen_alt_def)
    have b: "2 ^ nat (j - 1) \<le> c - 1" "c - 1 < 2 ^ nat j"
      using bitlen_bounds[OF c(3)] by (simp_all add: j_def)
    have "c \<le> 2 ^ nat j" using b(2) by simp
    then have "of_int c \<le> (2::real) ^ nat j"
      using of_int_le_iff[where 'a = real, of c "2 ^ nat j"] by simp
    then have u: "y \<le> 2 ^ nat j" using c(1) by linarith
    have "(2::real) ^ nat (j - 1) \<le> of_int (c - 1)"
      using b(1) of_int_le_iff[where 'a = real, of "2 ^ nat (j - 1)" "c - 1"] by simp
    then have l: "2 ^ nat (j - 1) < y" using c(2) by simp
    have fl: "floorLog2 x = - j" using False by (simp add: floorLog2_def j_def c_def y_def)
    have x: "x = 1 / y" using assms by (simp add: y_def)
    have p1: "2 powi (- j) = 1 / (2::real) ^ nat j"
      using j1 by (simp add: power_int_def field_simps)
    have p2: "2 powi (- j + 1) = 1 / (2::real) ^ nat (j - 1)"
      using j1 by (cases "j = 1") (simp_all add: power_int_def field_simps nat_diff_distrib)
    have "1 / 2 ^ nat j \<le> 1 / y" using u y by (intro divide_left_mono) simp_all
    moreover have "1 / y < 1 / 2 ^ nat (j - 1)"
      using l y by (intro divide_strict_left_mono mult_pos_pos) simp_all
    ultimately have "2 powi (- j) \<le> x" "x < 2 powi (- j + 1)"
      unfolding p1 p2 x by simp_all
    then show ?thesis unfolding fl by simp
  qed
  then show "2 powi floorLog2 x \<le> x" "x < 2 powi (floorLog2 x + 1)" by simp_all
qed

lemma floorLog2_unique:
  assumes "2 powi k \<le> x" "x < 2 powi (k + 1)"
  shows "floorLog2 x = k"
proof -
  have "0 < (2::real) powi k" by simp
  then have x: "0 < x" using assms(1) by linarith
  note b = floorLog2_bounds[OF x]
  have "\<not> floorLog2 x + 1 \<le> k"
  proof
    assume "floorLog2 x + 1 \<le> k"
    then have "2 powi (floorLog2 x + 1) \<le> (2::real) powi k" by (intro power_int_increasing) simp_all
    then show False using b(2) assms(1) by linarith
  qed
  moreover have "\<not> k + 1 \<le> floorLog2 x"
  proof
    assume "k + 1 \<le> floorLog2 x"
    then have "2 powi (k + 1) \<le> (2::real) powi floorLog2 x" by (intro power_int_increasing) simp_all
    then show False using b(1) assms(2) by linarith
  qed
  ultimately show ?thesis by linarith
qed

lemma fl32_eval:
  assumes "2 powi k \<le> \<bar>x\<bar>" "\<bar>x\<bar> < 2 powi (k + 1)" "- 126 \<le> k"
  shows "fl32 x = of_int (roundHalfEven (x / 2 powi (k - 23))) * 2 powi (k - 23)"
proof -
  have "0 < (2::real) powi k" by simp
  then have "x \<noteq> 0" using assms(1) by linarith
  moreover have "floorLog2 \<bar>x\<bar> = k" by (rule floorLog2_unique[OF assms(1,2)])
  moreover have "max (- 149) (k - 23) = k - 23" using assms(3) by simp
  ultimately show ?thesis by (simp add: fl32_def Let_def)
qed

lemma fl32_0 [simp]: "fl32 0 = 0"
  by (simp add: fl32_def)

lemma fl32_nonneg: "0 \<le> x \<Longrightarrow> 0 \<le> fl32 x"
  using roundHalfEven_ge[of 0] by (simp add: fl32_def Let_def)


lemma powi_split: "e' \<le> e \<Longrightarrow> (2::real) powi e = of_int (2 ^ nat (e - e')) * 2 powi e'"
proof -
  assume "e' \<le> e"
  then have "(2::real) powi (e - e') = 2 ^ nat (e - e')" by (simp add: power_int_def)
  moreover have "(2::real) powi e = 2 powi (e - e') * 2 powi e'"
    using power_int_add[of "2::real" "e - e'" e'] by simp
  ultimately show ?thesis by simp
qed

lemma fl32_exact:
  assumes m: "\<bar>m\<bar> < 2 ^ 24" and e: "- 149 \<le> e"
  shows "fl32 (of_int m * 2 powi e) = of_int m * 2 powi e"
proof (cases "m = 0")
  case True
  then show ?thesis by simp
next
  case False
  define x :: real where "x = of_int m * 2 powi e"
  have xn: "x \<noteq> 0" using False by (simp add: x_def)
  have ax: "\<bar>x\<bar> = of_int \<bar>m\<bar> * 2 powi e" by (simp add: x_def abs_mult)
  have "of_int \<bar>m\<bar> < (2::real) ^ 24"
    using m of_int_less_iff[where 'a = real, of "\<bar>m\<bar>" "2 ^ 24"] by simp
  then have "\<bar>x\<bar> < 2 ^ 24 * 2 powi e" unfolding ax by (intro mult_strict_right_mono) simp_all
  also have "\<dots> = 2 powi (24 + e)" using power_int_add[of "2::real" 24 e] by simp
  finally have up: "\<bar>x\<bar> < 2 powi (24 + e)" .
  define k where "k = floorLog2 \<bar>x\<bar>"
  have "2 powi k \<le> \<bar>x\<bar>" unfolding k_def using xn by (intro floorLog2_bounds) simp
  then have "(2::real) powi k < 2 powi (24 + e)" using up by linarith
  then have "k < 24 + e"
    using power_int_increasing[of "24 + e" k "2::real"] by (cases "k < 24 + e") auto
  define E where "E = max (- 149) (k - 23)"
  have Ee: "E \<le> e" using \<open>k < 24 + e\<close> e by (simp add: E_def)
  note sp = powi_split[OF Ee]
  have "x / 2 powi E = of_int (m * 2 ^ nat (e - E))"
    unfolding x_def by (subst sp) simp
  then have "roundHalfEven (x / 2 powi E) = m * 2 ^ nat (e - E)"
    by (simp only: roundHalfEven_of_int)
  then have "fl32 x = of_int (m * 2 ^ nat (e - E)) * 2 powi E"
    using xn by (simp add: fl32_def Let_def E_def k_def)
  also have "\<dots> = x" unfolding x_def sp by simp
  finally show ?thesis by (simp add: x_def)
qed

lemma fl32_of_int: "\<bar>m\<bar> < 2 ^ 24 \<Longrightarrow> fl32 (of_int m) = of_int m"
  using fl32_exact[of m 0] by simp

lemma fl32_of_nat: "n < 2 ^ 24 \<Longrightarrow> fl32 (real n) = real n"
  using fl32_of_int[of "int n"] by simp

text \<open>Rounding is monotone on the non-negative reals.\<close>

lemma fl32_pos_bounds:
  assumes x: "0 < x"
  defines "k \<equiv> floorLog2 x"
  defines "E \<equiv> max (- 149) (k - 23)"
  shows "fl32 x = of_int (roundHalfEven (x / 2 powi E)) * 2 powi E"
    and "\<And>j. k < j \<Longrightarrow> fl32 x \<le> 2 powi j"
    and "- 149 < k - 23 \<Longrightarrow> 2 powi k \<le> fl32 x"
proof -
  show eq: "fl32 x = of_int (roundHalfEven (x / 2 powi E)) * 2 powi E"
    using x by (simp add: fl32_def Let_def E_def k_def)
  note b = floorLog2_bounds[OF x, folded k_def]
  show "fl32 x \<le> 2 powi j" if "k < j" for j
  proof (cases "E \<le> j")
    case True
    note sp = powi_split[OF True]
    have "x < 2 powi j"
      using b(2) power_int_increasing[of "k + 1" j "2::real"] that by simp
    then have "x / 2 powi E \<le> of_int (2 ^ nat (j - E))"
      unfolding sp by (simp add: field_simps)
    then have "roundHalfEven (x / 2 powi E) \<le> 2 ^ nat (j - E)" by (rule roundHalfEven_le)
    then have "real_of_int (roundHalfEven (x / 2 powi E)) \<le> of_int (2 ^ nat (j - E))"
      by (simp only: of_int_le_iff)
    then have "real_of_int (roundHalfEven (x / 2 powi E)) * 2 powi E
        \<le> of_int (2 ^ nat (j - E)) * 2 powi E"
      by (intro mult_right_mono) simp_all
    then show ?thesis unfolding eq sp .
  next
    case False
    then have jE: "j < E" by simp
    then have "E = - 149" using that by (simp add: E_def split: if_splits)
    have "x < 2 powi j"
      using b(2) power_int_increasing[of "k + 1" j "2::real"] that by simp
    moreover have "(2::real) powi j \<le> 2 powi (E - 1)"
      using jE by (intro power_int_increasing) simp_all
    moreover have "(2::real) powi (E - 1) = 2 powi E / 2"
      using power_int_diff[of "2::real" E 1] by simp
    ultimately have "x / 2 powi E < 1 / 2" by (simp add: field_simps)
    moreover have "0 \<le> x / 2 powi E" using x by simp
    ultimately have "\<lfloor>x / 2 powi E\<rfloor> = 0" by linarith
    then have "roundHalfEven (x / 2 powi E) = 0"
      using \<open>x / 2 powi E < 1 / 2\<close> by (simp add: roundHalfEven_def)
    then show ?thesis unfolding eq by simp
  qed
  show "2 powi k \<le> fl32 x" if "- 149 < k - 23"
  proof -
    have E: "E = k - 23" using that by (simp add: E_def)
    have sp: "(2::real) powi k = of_int (2 ^ 23) * 2 powi E"
      using powi_split[of E k] by (simp add: E)
    have "of_int (2 ^ 23) \<le> x / 2 powi E"
      using b(1) unfolding sp by (simp add: field_simps)
    then have "2 ^ 23 \<le> roundHalfEven (x / 2 powi E)" by (rule roundHalfEven_ge)
    then have "real_of_int (2 ^ 23) \<le> of_int (roundHalfEven (x / 2 powi E))"
      by (simp only: of_int_le_iff)
    then have "of_int (2 ^ 23) * 2 powi E
        \<le> real_of_int (roundHalfEven (x / 2 powi E)) * 2 powi E"
      by (intro mult_right_mono) simp_all
    then show ?thesis unfolding eq sp .
  qed
qed

lemma fl32_mono:
  assumes "0 \<le> x" "x \<le> y"
  shows "fl32 x \<le> fl32 y"
proof (cases "x = 0")
  case True
  then show ?thesis using fl32_nonneg[of y] assms by simp
next
  case False
  then have x: "0 < x" and y: "0 < y" using assms by simp_all
  note bx = floorLog2_bounds[OF x] and bu = floorLog2_bounds[OF y]
  have "(2::real) powi floorLog2 x < 2 powi (floorLog2 y + 1)"
    using bx(1) bu(2) assms(2) by linarith
  then have kk: "floorLog2 x \<le> floorLog2 y"
    using power_int_increasing[of "floorLog2 y + 1" "floorLog2 x" "2::real"]
    by (cases "floorLog2 x \<le> floorLog2 y") auto
  show ?thesis
  proof (cases "max (- 149) (floorLog2 x - 23) = max (- 149) (floorLog2 y - 23)")
    case True
    have "x / 2 powi max (- 149) (floorLog2 y - 23) \<le> y / 2 powi max (- 149) (floorLog2 y - 23)"
      using assms(2) by (intro divide_right_mono) simp_all
    then have "roundHalfEven (x / 2 powi max (- 149) (floorLog2 y - 23))
        \<le> roundHalfEven (y / 2 powi max (- 149) (floorLog2 y - 23))"
      by (rule roundHalfEven_mono)
    then have "real_of_int (roundHalfEven (x / 2 powi max (- 149) (floorLog2 y - 23)))
        \<le> of_int (roundHalfEven (y / 2 powi max (- 149) (floorLog2 y - 23)))"
      by (simp only: of_int_le_iff)
    then show ?thesis
      unfolding fl32_pos_bounds(1)[OF x] fl32_pos_bounds(1)[OF y] True
      by (intro mult_right_mono) simp_all
  next
    case False
    then have lt: "floorLog2 x < floorLog2 y" and n: "- 149 < floorLog2 y - 23"
      using kk by (auto simp: max_def split: if_splits)
    have "fl32 x \<le> 2 powi floorLog2 y" by (rule fl32_pos_bounds(2)[OF x lt])
    also have "\<dots> \<le> fl32 y" by (rule fl32_pos_bounds(3)[OF y n])
    finally show ?thesis .
  qed
qed

text \<open>Values that rounding leaves alone, for the evaluation of examples.\<close>

lemma fl32_numeral: "numeral w < (2::nat) ^ 24 \<Longrightarrow> fl32 (numeral w) = numeral w"
  using fl32_of_nat[of "numeral w"] by simp

lemma fl32_1 [simp]: "fl32 1 = 1"
  using fl32_of_nat[of 1] by simp


lemma fl32_half [simp]: "fl32 (1 / 2) = 1 / 2"
  using fl32_exact[of 1 "- 1"] by simp


section \<open>Lemmas on the presynaptic lists\<close>

lemma entry_upd [simp]: "entry (m(a \<mapsto> v)) b = (if b = a then v else entry m b)"
  by (simp add: entry_def)

lemma entry_storeOrErase [simp]:
  "entry (storeOrErase m a v) b = (if b = a then v else entry m b)"
  by (simp add: entry_def storeOrErase_def)

lemma entry_erase [simp]: "entry (m(a := None)) b = (if b = a then [] else entry m b)"
  by (simp add: entry_def)

lemma entry_Some: "entry m a \<noteq> [] \<Longrightarrow> m a = Some (entry m a)"
  by (auto simp: entry_def split: option.splits)

lemma nth_swap_remove:
  "j < length xs - 1 \<Longrightarrow> butlast (xs[i := v]) ! j = (if j = i then v else xs ! j)"
  by (simp add: nth_butlast nth_list_update)

lemma presynListsOK_I:
  assumes "\<And>a. length (entry gm a) = length (entry sm a)"
    and "\<And>a i. i < length (entry sm a) \<Longrightarrow>
           entry sm a ! i < length syns \<and> M (entry sm a ! i) \<and>
           presynapticCell (syns ! (entry sm a ! i)) = a \<and>
           presynapticMapIndex_m (syns ! (entry sm a ! i)) = i \<and>
           entry gm a ! i = segment (syns ! (entry sm a ! i))"
    and "\<And>y. y < length syns \<Longrightarrow> M y \<Longrightarrow>
           presynapticMapIndex_m (syns ! y) < length (entry sm (presynapticCell (syns ! y))) \<and>
           entry sm (presynapticCell (syns ! y)) ! presynapticMapIndex_m (syns ! y) = y"
  shows "presynListsOK syns M sm gm"
  using assms unfolding presynListsOK_def by blast

lemma presynListsOK_len:
  "presynListsOK syns M sm gm \<Longrightarrow> length (entry gm a) = length (entry sm a)"
  unfolding presynListsOK_def by blast

lemma presynListsOK_nth:
  assumes "presynListsOK syns M sm gm" "i < length (entry sm a)"
  shows "entry sm a ! i < length syns" "M (entry sm a ! i)"
    "presynapticCell (syns ! (entry sm a ! i)) = a"
    "presynapticMapIndex_m (syns ! (entry sm a ! i)) = i"
    "entry gm a ! i = segment (syns ! (entry sm a ! i))"
  using assms unfolding presynListsOK_def by blast+

lemma presynListsOK_at:
  assumes "presynListsOK syns M sm gm" "y < length syns" "M y"
  shows "presynapticMapIndex_m (syns ! y) < length (entry sm (presynapticCell (syns ! y)))"
    "entry sm (presynapticCell (syns ! y)) ! presynapticMapIndex_m (syns ! y) = y"
  using assms unfolding presynListsOK_def by blast+

lemma presynListsOK_distinct:
  assumes "presynListsOK syns M sm gm"
  shows "distinct (entry sm a)"
proof -
  have "i = j" if "i < length (entry sm a)" "j < length (entry sm a)"
    "entry sm a ! i = entry sm a ! j" for i j
    using presynListsOK_nth(4)[OF assms that(1)] presynListsOK_nth(4)[OF assms that(2)] that(3)
    by metis
  then show ?thesis by (simp add: distinct_conv_nth) blast
qed

lemma presynListsOK_last:
  assumes ok: "presynListsOK syns M sm gm" and ne: "entry sm a \<noteq> []"
  shows "last (entry sm a) < length syns" "M (last (entry sm a))"
    "presynapticCell (syns ! last (entry sm a)) = a"
    "presynapticMapIndex_m (syns ! last (entry sm a)) = length (entry sm a) - 1"
    "last (entry gm a) = segment (syns ! last (entry sm a))"
proof -
  have l: "last (entry sm a) = entry sm a ! (length (entry sm a) - 1)"
    and i: "length (entry sm a) - 1 < length (entry sm a)"
    using ne by (simp_all add: last_conv_nth)
  have g: "last (entry gm a) = entry gm a ! (length (entry sm a) - 1)"
    using ne presynListsOK_len[OF ok, of a] by (metis last_conv_nth length_0_conv)
  show "last (entry sm a) < length syns" "M (last (entry sm a))"
    "presynapticCell (syns ! last (entry sm a)) = a"
    "presynapticMapIndex_m (syns ! last (entry sm a)) = length (entry sm a) - 1"
    "last (entry gm a) = segment (syns ! last (entry sm a))"
    unfolding l g using presynListsOK_nth[OF ok i] by simp_all
qed

lemma presynListsOK_cong:
  assumes ok: "presynListsOK syns M sm gm"
    and len: "length syns' = length syns"
    and M: "\<And>y. y < length syns \<Longrightarrow> M' y = M y"
    and same: "\<And>y. y < length syns \<Longrightarrow> M y \<Longrightarrow>
        presynapticCell (syns' ! y) = presynapticCell (syns ! y) \<and>
        presynapticMapIndex_m (syns' ! y) = presynapticMapIndex_m (syns ! y) \<and>
        segment (syns' ! y) = segment (syns ! y)"
    and maps: "\<And>a. entry sm' a = entry sm a \<and> entry gm' a = entry gm a"
  shows "presynListsOK syns' M' sm' gm'"
proof (rule presynListsOK_I)
  fix a
  show "length (entry gm' a) = length (entry sm' a)"
    using presynListsOK_len[OF ok, of a] maps by simp
next
  fix a i assume "i < length (entry sm' a)"
  then have i: "i < length (entry sm a)" using maps by simp
  note n = presynListsOK_nth[OF ok i]
  show "entry sm' a ! i < length syns' \<and> M' (entry sm' a ! i) \<and>
           presynapticCell (syns' ! (entry sm' a ! i)) = a \<and>
           presynapticMapIndex_m (syns' ! (entry sm' a ! i)) = i \<and>
           entry gm' a ! i = segment (syns' ! (entry sm' a ! i))"
    using n same[OF n(1) n(2)] M[OF n(1)] len maps by simp
next
  fix y assume y: "y < length syns'" "M' y"
  then have y': "y < length syns" "M y" using len M by auto
  show "presynapticMapIndex_m (syns' ! y) < length (entry sm' (presynapticCell (syns' ! y))) \<and>
           entry sm' (presynapticCell (syns' ! y)) ! presynapticMapIndex_m (syns' ! y) = y"
    using presynListsOK_at[OF ok y'] same[OF y'] maps by simp
qed

text \<open>Removing a synapse from its list by swap-with-last.\<close>

lemma presynListsOK_remove:
  assumes ok: "presynListsOK syns M sm gm"
    and sy: "sy < length syns" "M sy"
    and len: "length syns' = length syns"
    and same: "\<And>y. y < length syns \<Longrightarrow> M y \<Longrightarrow> y \<noteq> sy \<Longrightarrow>
        presynapticCell (syns' ! y) = presynapticCell (syns ! y) \<and>
        segment (syns' ! y) = segment (syns ! y) \<and>
        presynapticMapIndex_m (syns' ! y)
          = (if y = last (entry sm (presynapticCell (syns ! sy)))
             then presynapticMapIndex_m (syns ! sy) else presynapticMapIndex_m (syns ! y))"
    and sm': "\<And>b. entry sm' b = (if b = presynapticCell (syns ! sy)
         then butlast ((entry sm b)[presynapticMapIndex_m (syns ! sy) := last (entry sm b)])
         else entry sm b)"
    and gm': "\<And>b. entry gm' b = (if b = presynapticCell (syns ! sy)
         then butlast ((entry gm b)[presynapticMapIndex_m (syns ! sy) := last (entry gm b)])
         else entry gm b)"
  shows "presynListsOK syns' (\<lambda>y. M y \<and> y \<noteq> sy) sm' gm'"
proof (rule presynListsOK_I)
  let ?a = "presynapticCell (syns ! sy)"
  let ?i = "presynapticMapIndex_m (syns ! sy)"
  let ?ys = "entry sm ?a"
  let ?move = "last ?ys"
  note at = presynListsOK_at[OF ok sy]
  have ne: "?ys \<noteq> []" using at(1) by auto
  note lst = presynListsOK_last[OF ok ne]
  note dist = presynListsOK_distinct[OF ok, of ?a]
  {
    fix a
    show "length (entry gm' a) = length (entry sm' a)"
      using presynListsOK_len[OF ok] by (simp add: sm' gm')
  next
    fix a i assume i: "i < length (entry sm' a)"
    show "entry sm' a ! i < length syns' \<and> (M (entry sm' a ! i) \<and> entry sm' a ! i \<noteq> sy) \<and>
           presynapticCell (syns' ! (entry sm' a ! i)) = a \<and>
           presynapticMapIndex_m (syns' ! (entry sm' a ! i)) = i \<and>
           entry gm' a ! i = segment (syns' ! (entry sm' a ! i))"
    proof (cases "a = ?a")
      case False
      then have i': "i < length (entry sm a)" and e: "entry sm' a = entry sm a" "entry gm' a = entry gm a"
        using i by (simp_all add: sm' gm')
      note n = presynListsOK_nth[OF ok i']
      have ns: "entry sm a ! i \<noteq> sy" using n(3) False by auto
      have "entry sm a ! i \<noteq> ?move" using n(3) lst(3) False by auto
      then show ?thesis using n ns same[OF n(1) n(2) ns] len e by simp
    next
      case True
      then have i': "i < length ?ys - 1" using i by (simp add: sm')
      then have i'': "i < length ?ys" by simp
      have glen: "length (entry gm ?a) = length ?ys" using presynListsOK_len[OF ok] .
      show ?thesis
      proof (cases "i = ?i")
        case eq: True
        then have mv: "entry sm' a ! i = ?move" "entry gm' a ! i = last (entry gm ?a)"
          using True i' glen by (simp_all add: sm' gm' nth_swap_remove)
        have "?move \<noteq> sy"
          using lst(4) i' eq by auto
        then show ?thesis
          unfolding mv using lst same[OF lst(1) lst(2)] len True eq by simp
      next
        case neq: False
        then have mv: "entry sm' a ! i = ?ys ! i" "entry gm' a ! i = entry gm ?a ! i"
          using True i' glen by (simp_all add: sm' gm' nth_swap_remove)
        note n = presynListsOK_nth[OF ok i'']
        have ns: "?ys ! i \<noteq> sy" using n(4) neq by auto
        have "?ys ! i \<noteq> ?move" using n(4) lst(4) i' by auto
        then show ?thesis
          unfolding mv using n ns same[OF n(1) n(2) ns] len True by simp
      qed
    qed
  next
    fix y assume y: "y < length syns'" "M y \<and> y \<noteq> sy"
    then have y': "y < length syns" "M y" "y \<noteq> sy" using len by auto
    note aty = presynListsOK_at[OF ok y'(1,2)]
    note s = same[OF y']
    show "presynapticMapIndex_m (syns' ! y) < length (entry sm' (presynapticCell (syns' ! y))) \<and>
           entry sm' (presynapticCell (syns' ! y)) ! presynapticMapIndex_m (syns' ! y) = y"
    proof (cases "presynapticCell (syns ! y) = ?a")
      case False
      then have "y \<noteq> ?move" using lst(3) by auto
      then show ?thesis using aty s False by (simp add: sm')
    next
      case True
      have neq: "presynapticMapIndex_m (syns ! y) \<noteq> ?i"
        using aty(2) at(2) y'(3) True by auto
      show ?thesis
      proof (cases "y = ?move")
        case mv: True
        then have "?i \<noteq> length ?ys - 1" using neq lst(4) by auto
        then have "?i < length ?ys - 1" using at(1) by simp
        then show ?thesis using s mv True by (simp add: sm' nth_swap_remove)
      next
        case nmv: False
        have "presynapticMapIndex_m (syns ! y) \<noteq> length ?ys - 1"
          using aty(2) True nmv ne by (auto simp: last_conv_nth)
        then have "presynapticMapIndex_m (syns ! y) < length ?ys - 1" using aty(1) True by simp
        then show ?thesis using s nmv True neq aty(2) by (simp add: sm' nth_swap_remove)
      qed
    qed
  }
qed

text \<open>Appending a synapse to the list of its presynaptic cell.\<close>

lemma presynListsOK_append:
  assumes ok: "presynListsOK syns M sm gm"
    and bound: "\<And>y. M y \<Longrightarrow> y < length syns"
    and sy: "sy < length syns'" "\<not> M sy"
    and len: "length syns \<le> length syns'"
    and same: "\<And>y. M y \<Longrightarrow>
        presynapticCell (syns' ! y) = presynapticCell (syns ! y) \<and>
        segment (syns' ! y) = segment (syns ! y) \<and>
        presynapticMapIndex_m (syns' ! y) = presynapticMapIndex_m (syns ! y)"
    and idx: "presynapticMapIndex_m (syns' ! sy) = length (entry sm (presynapticCell (syns' ! sy)))"
    and sm': "\<And>b. entry sm' b = (if b = presynapticCell (syns' ! sy)
         then entry sm b @ [sy] else entry sm b)"
    and gm': "\<And>b. entry gm' b = (if b = presynapticCell (syns' ! sy)
         then entry gm b @ [segment (syns' ! sy)] else entry gm b)"
    and M': "\<And>y. y < length syns' \<Longrightarrow> M' y = (M y \<or> y = sy)"
  shows "presynListsOK syns' M' sm' gm'"
proof (rule presynListsOK_I)
  let ?a = "presynapticCell (syns' ! sy)"
  {
    fix a
    show "length (entry gm' a) = length (entry sm' a)"
      using presynListsOK_len[OF ok] by (simp add: sm' gm')
  next
    fix a i assume i: "i < length (entry sm' a)"
    show "entry sm' a ! i < length syns' \<and> M' (entry sm' a ! i) \<and>
           presynapticCell (syns' ! (entry sm' a ! i)) = a \<and>
           presynapticMapIndex_m (syns' ! (entry sm' a ! i)) = i \<and>
           entry gm' a ! i = segment (syns' ! (entry sm' a ! i))"
    proof (cases "a = ?a \<and> i = length (entry sm a)")
      case True
      then show ?thesis
        using sy idx presynListsOK_len[OF ok, of a] M'[OF sy(1)]
        by (simp add: sm' gm' nth_append)
    next
      case False
      then have i': "i < length (entry sm a)" using i by (auto simp: sm' split: if_splits)
      note n = presynListsOK_nth[OF ok i']
      have e: "entry sm' a ! i = entry sm a ! i" "entry gm' a ! i = entry gm a ! i"
        using i' presynListsOK_len[OF ok, of a] by (auto simp: sm' gm' nth_append)
      have "entry sm a ! i < length syns'" using n(1) len by simp
      then show ?thesis
        unfolding e using n same[OF n(2)] M' by simp
    qed
  next
    fix y assume y: "y < length syns'" "M' y"
    show "presynapticMapIndex_m (syns' ! y) < length (entry sm' (presynapticCell (syns' ! y))) \<and>
           entry sm' (presynapticCell (syns' ! y)) ! presynapticMapIndex_m (syns' ! y) = y"
    proof (cases "y = sy")
      case True
      then show ?thesis using idx by (simp add: sm')
    next
      case False
      then have My: "M y" using y M' by auto
      then have yl: "y < length syns" using bound by simp
      note aty = presynListsOK_at[OF ok yl My]
      show ?thesis using aty same[OF My] by (auto simp: sm' nth_append)
    qed
  }
qed

section \<open>Writing a permanence keeps the invariants\<close>

lemma live_sameShape: "sameShape c c' \<Longrightarrow> live c' y = live c y"
  by (simp add: sameShape_def live_def)

lemma liveSegment_sameShape: "sameShape c c' \<Longrightarrow> liveSegment c' sg = liveSegment c sg"
  by (simp add: sameShape_def liveSegment_def)

lemma wfCells_sameShape:
  assumes "wfCells c" "sameShape c c'"
  shows "wfCells c'"
proof -
  have s: "cells_m c' = cells_m c" "destroyedSegments_m c' = destroyedSegments_m c"
    "length (segments_m c') = length (segments_m c)"
    "\<And>sg. synapses (segments_m c' ! sg) = synapses (segments_m c ! sg)"
    "\<And>sg. cell (segments_m c' ! sg) = cell (segments_m c ! sg)"
    using assms(2) by (simp_all add: sameShape_def)
  show ?thesis
    using assms(1) unfolding wfCells_def liveSegment_sameShape[OF assms(2)] s .
qed

lemma wfSegments_sameShape:
  assumes w: "wfSegments c" and s: "sameShape c c'"
    and n: "\<And>sg. sg < length (segments_m c) \<Longrightarrow>
       numConnected (segments_m c' ! sg)
         = length (filter (isConnected c') (synapses (segments_m c ! sg)))"
  shows "wfSegments c'"
proof -
  have e: "destroyedSynapses_m c' = destroyedSynapses_m c"
    "length (segments_m c') = length (segments_m c)"
    "length (synapses_m c') = length (synapses_m c)"
    "\<And>sg. synapses (segments_m c' ! sg) = synapses (segments_m c ! sg)"
    "\<And>y. presynapticCell (synapses_m c' ! y) = presynapticCell (synapses_m c ! y)"
    "\<And>y. segment (synapses_m c' ! y) = segment (synapses_m c ! y)"
    using s by (simp_all add: sameShape_def)
  show ?thesis
    using w n unfolding wfSegments_def live_sameShape[OF s] e by simp
qed

lemma filter_flip_in:
  "distinct xs \<Longrightarrow> sy \<in> set xs \<Longrightarrow> \<not> P sy \<Longrightarrow> (\<And>y. y \<noteq> sy \<Longrightarrow> Q y = P y) \<Longrightarrow> Q sy
    \<Longrightarrow> length (filter Q xs) = length (filter P xs) + 1"
proof (induction xs)
  case Nil
  then show ?case by simp
next
  case (Cons x xs)
  show ?case
  proof (cases "x = sy")
    case True
    then have "sy \<notin> set xs" using Cons.prems(1) by simp
    then have "filter Q xs = filter P xs" using Cons.prems(4) by (intro filter_cong refl) metis
    then show ?thesis using True Cons.prems by simp
  next
    case False
    then show ?thesis using Cons by auto
  qed
qed

lemma filter_flip_out:
  "distinct xs \<Longrightarrow> sy \<in> set xs \<Longrightarrow> P sy \<Longrightarrow> (\<And>y. y \<noteq> sy \<Longrightarrow> Q y = P y) \<Longrightarrow> \<not> Q sy
    \<Longrightarrow> length (filter Q xs) = length (filter P xs) - 1"
  using filter_flip_in[of xs sy Q P] by simp

lemma filter_same:
  "sy \<notin> set xs \<Longrightarrow> (\<And>y. y \<noteq> sy \<Longrightarrow> Q y = P y) \<Longrightarrow> filter Q xs = filter P xs"
  by (intro filter_cong refl) metis


lemma nth_set_index_presyn [simp]:
  "presynapticCell (xs[i := (xs ! i)\<lparr> presynapticMapIndex_m := v \<rparr>] ! y) = presynapticCell (xs ! y)"
  by (cases "i < length xs"; cases "y = i"; simp add: list_update_beyond)

lemma nth_set_index_segment [simp]:
  "segment (xs[i := (xs ! i)\<lparr> presynapticMapIndex_m := v \<rparr>] ! y) = segment (xs ! y)"
  by (cases "i < length xs"; cases "y = i"; simp add: list_update_beyond)

lemma nth_set_index_permanence [simp]:
  "permanence (xs[i := (xs ! i)\<lparr> presynapticMapIndex_m := v \<rparr>] ! y) = permanence (xs ! y)"
  by (cases "i < length xs"; cases "y = i"; simp add: list_update_beyond)

lemma nth_set_index_index [simp]:
  "presynapticMapIndex_m (xs[i := (xs ! i)\<lparr> presynapticMapIndex_m := v \<rparr>] ! y)
     = (if y = i \<and> i < length xs then v else presynapticMapIndex_m (xs ! y))"
  by (cases "i < length xs"; cases "y = i"; simp add: list_update_beyond)

lemma nth_set_permanence_presyn [simp]:
  "presynapticCell (xs[i := (xs ! i)\<lparr> permanence := v \<rparr>] ! y) = presynapticCell (xs ! y)"
  by (cases "i < length xs"; cases "y = i"; simp add: list_update_beyond)

lemma nth_set_permanence_segment [simp]:
  "segment (xs[i := (xs ! i)\<lparr> permanence := v \<rparr>] ! y) = segment (xs ! y)"
  by (cases "i < length xs"; cases "y = i"; simp add: list_update_beyond)

lemma nth_set_permanence_index [simp]:
  "presynapticMapIndex_m (xs[i := (xs ! i)\<lparr> permanence := v \<rparr>] ! y) = presynapticMapIndex_m (xs ! y)"
  by (cases "i < length xs"; cases "y = i"; simp add: list_update_beyond)

lemma nth_set_permanence_permanence [simp]:
  "permanence (xs[i := (xs ! i)\<lparr> permanence := v \<rparr>] ! y)
     = (if y = i \<and> i < length xs then v else permanence (xs ! y))"
  by (cases "i < length xs"; cases "y = i"; simp add: list_update_beyond)

lemma nth_set_numConnected_synapses [simp]:
  "synapses (xs[i := (xs ! i)\<lparr> numConnected := v \<rparr>] ! y) = synapses (xs ! y)"
  by (cases "i < length xs"; cases "y = i"; simp add: list_update_beyond)

lemma nth_set_numConnected_cell [simp]:
  "cell (xs[i := (xs ! i)\<lparr> numConnected := v \<rparr>] ! y) = cell (xs ! y)"
  by (cases "i < length xs"; cases "y = i"; simp add: list_update_beyond)

lemma nth_set_numConnected_numConnected [simp]:
  "numConnected (xs[i := (xs ! i)\<lparr> numConnected := v \<rparr>] ! y)
     = (if y = i \<and> i < length xs then v else numConnected (xs ! y))"
  by (cases "i < length xs"; cases "y = i"; simp add: list_update_beyond)

lemma clampPermanence_range:
  "minPermanence \<le> clampPermanence p" "clampPermanence p \<le> maxPermanence"
  by (simp_all add: clampPermanence_def minPermanence_def maxPermanence_def)

lemma wf_live_facts:
  assumes "wellFormed c" "live c sy"
  shows "sy < length (synapses_m c)"
    "segment (synapses_m c ! sy) < length (segments_m c)"
    "sy \<in> set (synapses (segments_m c ! segment (synapses_m c ! sy)))"
    "distinct (synapses (segments_m c ! segment (synapses_m c ! sy)))"
  using assms by (auto simp: wellFormed_def wfSegments_def live_def)

lemma wf_segment_facts:
  assumes "wellFormed c" "sg < length (segments_m c)"
  shows "distinct (synapses (segments_m c ! sg))"
    "\<And>y. y \<in> set (synapses (segments_m c ! sg)) \<Longrightarrow> live c y \<and> segment (synapses_m c ! y) = sg"
    "numConnected (segments_m c ! sg) = length (filter (isConnected c) (synapses (segments_m c ! sg)))"
  using assms by (auto simp: wellFormed_def wfSegments_def)

text \<open>A write that keeps the isConnected status of the synapse.\<close>

lemma updateSynapsePermanence_same_status:
  assumes wellFormed: "wellFormed c" and lv: "live c sy"
    and st: "isConnected c sy = (clampPermanence p \<ge> connectedThreshold_m c)"
  shows "\<exists>c'. updateSynapsePermanence c sy p = Inr c' \<and> wellFormed c' \<and>
           permanenceWritten c sy (clampPermanence p) c'"
proof -
  define c' where "c' = c\<lparr> synapses_m := (synapses_m c)
      [sy := (synapses_m c ! sy)\<lparr> permanence := clampPermanence p \<rparr>] \<rparr>"
  note f = wf_live_facts[OF wellFormed lv]
  have res: "updateSynapsePermanence c sy p = Inr c'"
    using f(1) st by (simp add: updateSynapsePermanence_def c'_def isConnected_def
        clampPermanence_def Let_def)
  have pw: "permanenceWritten c sy (clampPermanence p) c'"
    using f(1) by (simp add: permanenceWritten_def sameShape_def c'_def)
  then have sh: "sameShape c c'" by (simp add: permanenceWritten_def)
  have con: "isConnected c' y = isConnected c y" for y
    using st f(1) by (cases "y = sy") (simp_all add: isConnected_def c'_def)
  have "wfCells c'" using wellFormed sh by (auto simp: wellFormed_def intro: wfCells_sameShape)
  moreover have "wfSegments c'"
  proof (rule wfSegments_sameShape[OF _ sh])
    show "wfSegments c" using wellFormed by (simp add: wellFormed_def)
    fix sg assume sg: "sg < length (segments_m c)"
    have "isConnected c' = isConnected c" using con by auto
    moreover have "segments_m c' = segments_m c" by (simp add: c'_def)
    ultimately show "numConnected (segments_m c' ! sg)
         = length (filter (isConnected c') (synapses (segments_m c ! sg)))"
      using wf_segment_facts(3)[OF wellFormed sg] by simp
  qed
  moreover have "wfPermanences c'"
    using wellFormed f(1) clampPermanence_range[of p]
    by (auto simp: wellFormed_def wfPermanences_def live_sameShape[OF sh]) (simp_all add: c'_def)
  moreover have "wfPresyn c'"
  proof -
    have "presynListsOK (synapses_m c') (\<lambda>y. live c' y \<and> isConnected c' y)
        (connectedSynapsesForPresynapticCell_m c') (connectedSegmentsForPresynapticCell_m c')"
      by (rule presynListsOK_cong[where syns = "synapses_m c" and M = "\<lambda>y. live c y \<and> isConnected c y"
            and sm = "connectedSynapsesForPresynapticCell_m c" and gm = "connectedSegmentsForPresynapticCell_m c"])
         (use wellFormed in \<open>simp_all add: wellFormed_def wfPresyn_def live_sameShape[OF sh] con\<close>, simp_all add: c'_def)
    moreover have "presynListsOK (synapses_m c') (\<lambda>y. live c' y \<and> \<not> isConnected c' y)
        (potentialSynapsesForPresynapticCell_m c') (potentialSegmentsForPresynapticCell_m c')"
      by (rule presynListsOK_cong[where syns = "synapses_m c" and M = "\<lambda>y. live c y \<and> \<not> isConnected c y"
            and sm = "potentialSynapsesForPresynapticCell_m c" and gm = "potentialSegmentsForPresynapticCell_m c"])
         (use wellFormed in \<open>simp_all add: wellFormed_def wfPresyn_def live_sameShape[OF sh] con\<close>, simp_all add: c'_def)
    ultimately show ?thesis by (simp add: wfPresyn_def)
  qed
  ultimately show ?thesis using res pw by (auto simp: wellFormed_def)
qed

lemma presynListsOK_M_cong:
  assumes "presynListsOK syns M sm gm" "\<And>y. y < length syns \<Longrightarrow> M' y = M y"
  shows "presynListsOK syns M' sm gm"
  using assms(1) by (rule presynListsOK_cong) (simp_all add: assms(2))

lemma wf_presyn_facts:
  assumes "wellFormed c"
  shows "presynListsOK (synapses_m c) (\<lambda>y. live c y \<and> isConnected c y)
        (connectedSynapsesForPresynapticCell_m c) (connectedSegmentsForPresynapticCell_m c)"
    "presynListsOK (synapses_m c) (\<lambda>y. live c y \<and> \<not> isConnected c y)
        (potentialSynapsesForPresynapticCell_m c) (potentialSegmentsForPresynapticCell_m c)"
  using assms by (simp_all add: wellFormed_def wfPresyn_def)

text \<open>A write that connects the synapse.\<close>

lemma updateSynapsePermanence_connect:
  assumes wellFormed: "wellFormed c" and lv: "live c sy"
    and nb: "\<not> isConnected c sy" and af: "clampPermanence p \<ge> connectedThreshold_m c"
  shows "\<exists>c'. updateSynapsePermanence c sy p = Inr c' \<and> wellFormed c' \<and>
           permanenceWritten c sy (clampPermanence p) c'"
proof -
  define a where "a = presynapticCell (synapses_m c ! sy)"
  define i where "i = presynapticMapIndex_m (synapses_m c ! sy)"
  define sg where "sg = segment (synapses_m c ! sy)"
  define pS where "pS = entry (potentialSynapsesForPresynapticCell_m c) a"
  define pG where "pG = entry (potentialSegmentsForPresynapticCell_m c) a"
  define cS where "cS = entry (connectedSynapsesForPresynapticCell_m c) a"
  define cG where "cG = entry (connectedSegmentsForPresynapticCell_m c) a"
  define move where "move = last pS"
  define syns1 where
    "syns1 = (synapses_m c)[sy := (synapses_m c ! sy)\<lparr> permanence := clampPermanence p \<rparr>]"
  define syns2 where "syns2 = syns1[move := (syns1 ! move)\<lparr> presynapticMapIndex_m := i \<rparr>]"
  define syns3 where "syns3 = syns2[sy := (syns2 ! sy)\<lparr> presynapticMapIndex_m := length cS \<rparr>]"
  define c' where "c' = c\<lparr>
      synapses_m := syns3,
      segments_m := (segments_m c)[sg := (segments_m c ! sg)
         \<lparr> numConnected := numConnected (segments_m c ! sg) + 1 \<rparr>],
      potentialSynapsesForPresynapticCell_m :=
        (potentialSynapsesForPresynapticCell_m c)(a \<mapsto> butlast (pS[i := move])),
      potentialSegmentsForPresynapticCell_m :=
        (potentialSegmentsForPresynapticCell_m c)(a \<mapsto> butlast (pG[i := last pG])),
      connectedSynapsesForPresynapticCell_m :=
        (connectedSynapsesForPresynapticCell_m c)(a \<mapsto> cS @ [sy]),
      connectedSegmentsForPresynapticCell_m :=
        (connectedSegmentsForPresynapticCell_m c)(a \<mapsto> cG @ [sg]) \<rparr>"
  note f = wf_live_facts[OF wellFormed lv]
  note okc = wf_presyn_facts(1)[OF wellFormed]
  note okp = wf_presyn_facts(2)[OF wellFormed]
  have Mp: "live c sy \<and> \<not> isConnected c sy" using lv nb by simp
  note at = presynListsOK_at[OF okp f(1) Mp, folded a_def i_def pS_def]
  have ne: "pS \<noteq> []" using at(1) by auto
  note lst = presynListsOK_last[OF okp ne[unfolded pS_def], folded pS_def move_def]
  have glen: "length pG = length pS"
    using presynListsOK_len[OF okp, of a] by (simp add: pG_def pS_def)
  have gne: "pG \<noteq> []" "i < length pG" using glen ne at(1) by auto
  have res: "updateSynapsePermanence c sy p = Inr c'"
    using f(1,2) nb af ne gne at(1) lst(1)
    unfolding c'_def syns3_def syns2_def syns1_def move_def pS_def pG_def cS_def cG_def
      a_def i_def sg_def
    by (simp add: updateSynapsePermanence_def removeSynapseFromPresynapticMap_m_def bindE_def
        isConnected_def clampPermanence_def Let_def)
  have len3: "length syns3 = length (synapses_m c)"
    by (simp add: syns3_def syns2_def syns1_def)
  have pre3: "presynapticCell (syns3 ! y) = presynapticCell (synapses_m c ! y)" for y
    by (simp add: syns3_def syns2_def syns1_def)
  have seg3: "segment (syns3 ! y) = segment (synapses_m c ! y)" for y
    by (simp add: syns3_def syns2_def syns1_def)
  have perm3: "permanence (syns3 ! y)
      = (if y = sy then clampPermanence p else permanence (synapses_m c ! y))" for y
    using f(1) by (simp add: syns3_def syns2_def syns1_def)
  have idx3: "presynapticMapIndex_m (syns3 ! y)
      = (if y = sy then length cS else if y = move then i
         else presynapticMapIndex_m (synapses_m c ! y))" for y
    using f(1) lst(1) by (simp add: syns3_def syns2_def syns1_def)
  have s3: "synapses_m c' = syns3" by (simp add: c'_def)
  have pw: "permanenceWritten c sy (clampPermanence p) c'"
    using pre3 seg3 perm3 len3 by (simp add: permanenceWritten_def sameShape_def c'_def)
  then have sh: "sameShape c c'" by (simp add: permanenceWritten_def)
  have con: "isConnected c' y = (if y = sy then True else isConnected c y)" for y
    using perm3[of y] af by (simp add: isConnected_def c'_def)
  have lv': "live c' y = live c y" for y by (rule live_sameShape[OF sh])
  have "wfCells c'" using wellFormed sh by (auto simp: wellFormed_def intro: wfCells_sameShape)
  moreover have "wfSegments c'"
  proof (rule wfSegments_sameShape[OF _ sh])
    show "wfSegments c" using wellFormed by (simp add: wellFormed_def)
    fix s assume s: "s < length (segments_m c)"
    note sf = wf_segment_facts[OF wellFormed s]
    show "numConnected (segments_m c' ! s)
         = length (filter (isConnected c') (synapses (segments_m c ! s)))"
    proof (cases "s = sg")
      case True
      have "length (filter (isConnected c') (synapses (segments_m c ! sg)))
          = length (filter (isConnected c) (synapses (segments_m c ! sg))) + 1"
        using f(3,4) nb con by (intro filter_flip_in[where sy = sy]) (simp_all add: sg_def)
      then show ?thesis using True s sf(3) by (simp add: c'_def)
    next
      case False
      have "sy \<notin> set (synapses (segments_m c ! s))" using sf(2) False by (auto simp: sg_def)
      then have "filter (isConnected c') (synapses (segments_m c ! s))
          = filter (isConnected c) (synapses (segments_m c ! s))"
        using con by (intro filter_same[where sy = sy]) simp_all
      then show ?thesis using False sf(3) by (simp add: c'_def)
    qed
  qed
  moreover have "wfPermanences c'"
    using wellFormed clampPermanence_range[of p] perm3
    by (simp add: wellFormed_def wfPermanences_def lv' s3 len3) (simp add: c'_def)
  moreover have "wfPresyn c'"
  proof -
    have "presynListsOK syns3 (\<lambda>y. (live c y \<and> \<not> isConnected c y) \<and> y \<noteq> sy)
        (potentialSynapsesForPresynapticCell_m c') (potentialSegmentsForPresynapticCell_m c')"
    proof (rule presynListsOK_remove[OF okp f(1) Mp len3])
      fix y assume "y < length (synapses_m c)" "live c y \<and> \<not> isConnected c y" "y \<noteq> sy"
      then show "presynapticCell (syns3 ! y) = presynapticCell (synapses_m c ! y) \<and>
        segment (syns3 ! y) = segment (synapses_m c ! y) \<and>
        presynapticMapIndex_m (syns3 ! y)
          = (if y = last (entry (potentialSynapsesForPresynapticCell_m c)
                      (presynapticCell (synapses_m c ! sy)))
             then presynapticMapIndex_m (synapses_m c ! sy)
             else presynapticMapIndex_m (synapses_m c ! y))"
        using pre3 seg3 idx3 by (simp add: move_def pS_def a_def i_def)
    next
      fix b
      show "entry (potentialSynapsesForPresynapticCell_m c') b
          = (if b = presynapticCell (synapses_m c ! sy)
             then butlast ((entry (potentialSynapsesForPresynapticCell_m c) b)
                    [presynapticMapIndex_m (synapses_m c ! sy)
                       := last (entry (potentialSynapsesForPresynapticCell_m c) b)])
             else entry (potentialSynapsesForPresynapticCell_m c) b)"
        by (simp add: c'_def move_def pS_def a_def i_def)
      show "entry (potentialSegmentsForPresynapticCell_m c') b
          = (if b = presynapticCell (synapses_m c ! sy)
             then butlast ((entry (potentialSegmentsForPresynapticCell_m c) b)
                    [presynapticMapIndex_m (synapses_m c ! sy)
                       := last (entry (potentialSegmentsForPresynapticCell_m c) b)])
             else entry (potentialSegmentsForPresynapticCell_m c) b)"
        by (simp add: c'_def pG_def a_def i_def)
    qed
    then have 1: "presynListsOK (synapses_m c') (\<lambda>y. live c' y \<and> \<not> isConnected c' y)
        (potentialSynapsesForPresynapticCell_m c') (potentialSegmentsForPresynapticCell_m c')"
      unfolding s3 by (rule presynListsOK_M_cong) (auto simp: con lv')
    have "presynListsOK syns3 (\<lambda>y. live c' y \<and> isConnected c' y)
        (connectedSynapsesForPresynapticCell_m c') (connectedSegmentsForPresynapticCell_m c')"
    proof (rule presynListsOK_append[OF okc, where sy = sy])
      fix y assume "live c y \<and> isConnected c y"
      then show "y < length (synapses_m c)" by (simp add: live_def)
    next
      show "sy < length syns3" using f(1) len3 by simp
      show "\<not> (live c sy \<and> isConnected c sy)" using nb by simp
      show "length (synapses_m c) \<le> length syns3" using len3 by simp
    next
      fix y assume y: "live c y \<and> isConnected c y"
      then have "y \<noteq> sy" using nb by auto
      moreover have "y \<noteq> move" using y lst(2) by auto
      ultimately show "presynapticCell (syns3 ! y) = presynapticCell (synapses_m c ! y) \<and>
        segment (syns3 ! y) = segment (synapses_m c ! y) \<and>
        presynapticMapIndex_m (syns3 ! y) = presynapticMapIndex_m (synapses_m c ! y)"
        using pre3 seg3 idx3 by simp
    next
      show "presynapticMapIndex_m (syns3 ! sy)
          = length (entry (connectedSynapsesForPresynapticCell_m c) (presynapticCell (syns3 ! sy)))"
        using idx3 pre3 by (simp add: cS_def a_def)
    next
      fix b
      show "entry (connectedSynapsesForPresynapticCell_m c') b
          = (if b = presynapticCell (syns3 ! sy)
             then entry (connectedSynapsesForPresynapticCell_m c) b @ [sy]
             else entry (connectedSynapsesForPresynapticCell_m c) b)"
        using pre3 by (simp add: c'_def cS_def a_def)
      show "entry (connectedSegmentsForPresynapticCell_m c') b
          = (if b = presynapticCell (syns3 ! sy)
             then entry (connectedSegmentsForPresynapticCell_m c) b @ [segment (syns3 ! sy)]
             else entry (connectedSegmentsForPresynapticCell_m c) b)"
        using pre3 seg3 by (simp add: c'_def cG_def a_def sg_def)
    next
      fix y assume "y < length syns3"
      then show "(live c' y \<and> isConnected c' y) = ((live c y \<and> isConnected c y) \<or> y = sy)"
        using lv by (auto simp: con lv')
    qed
    then have 2: "presynListsOK (synapses_m c') (\<lambda>y. live c' y \<and> isConnected c' y)
        (connectedSynapsesForPresynapticCell_m c') (connectedSegmentsForPresynapticCell_m c')"
      unfolding s3 .
    show ?thesis using 1 2 by (simp add: wfPresyn_def)
  qed
  ultimately show ?thesis using res pw by (auto simp: wellFormed_def)
qed

text \<open>A write that disconnects the synapse.\<close>

lemma updateSynapsePermanence_disconnect:
  assumes wellFormed: "wellFormed c" and lv: "live c sy"
    and nb: "isConnected c sy" and af: "\<not> clampPermanence p \<ge> connectedThreshold_m c"
  shows "\<exists>c'. updateSynapsePermanence c sy p = Inr c' \<and> wellFormed c' \<and>
           permanenceWritten c sy (clampPermanence p) c'"
proof -
  define a where "a = presynapticCell (synapses_m c ! sy)"
  define i where "i = presynapticMapIndex_m (synapses_m c ! sy)"
  define sg where "sg = segment (synapses_m c ! sy)"
  define pS where "pS = entry (connectedSynapsesForPresynapticCell_m c) a"
  define pG where "pG = entry (connectedSegmentsForPresynapticCell_m c) a"
  define cS where "cS = entry (potentialSynapsesForPresynapticCell_m c) a"
  define cG where "cG = entry (potentialSegmentsForPresynapticCell_m c) a"
  define move where "move = last pS"
  define syns1 where
    "syns1 = (synapses_m c)[sy := (synapses_m c ! sy)\<lparr> permanence := clampPermanence p \<rparr>]"
  define syns2 where "syns2 = syns1[move := (syns1 ! move)\<lparr> presynapticMapIndex_m := i \<rparr>]"
  define syns3 where "syns3 = syns2[sy := (syns2 ! sy)\<lparr> presynapticMapIndex_m := length cS \<rparr>]"
  define c' where "c' = c\<lparr>
      synapses_m := syns3,
      segments_m := (segments_m c)[sg := (segments_m c ! sg)
         \<lparr> numConnected := numConnected (segments_m c ! sg) - 1 \<rparr>],
      connectedSynapsesForPresynapticCell_m :=
        (connectedSynapsesForPresynapticCell_m c)(a \<mapsto> butlast (pS[i := move])),
      connectedSegmentsForPresynapticCell_m :=
        (connectedSegmentsForPresynapticCell_m c)(a \<mapsto> butlast (pG[i := last pG])),
      potentialSynapsesForPresynapticCell_m :=
        (potentialSynapsesForPresynapticCell_m c)(a \<mapsto> cS @ [sy]),
      potentialSegmentsForPresynapticCell_m :=
        (potentialSegmentsForPresynapticCell_m c)(a \<mapsto> cG @ [sg]) \<rparr>"
  note f = wf_live_facts[OF wellFormed lv]
  note okc = wf_presyn_facts(2)[OF wellFormed]
  note okp = wf_presyn_facts(1)[OF wellFormed]
  have Mp: "live c sy \<and> isConnected c sy" using lv nb by simp
  note at = presynListsOK_at[OF okp f(1) Mp, folded a_def i_def pS_def]
  have ne: "pS \<noteq> []" using at(1) by auto
  note lst = presynListsOK_last[OF okp ne[unfolded pS_def], folded pS_def move_def]
  have glen: "length pG = length pS"
    using presynListsOK_len[OF okp, of a] by (simp add: pG_def pS_def)
  have gne: "pG \<noteq> []" "i < length pG" using glen ne at(1) by auto
  have res: "updateSynapsePermanence c sy p = Inr c'"
    using f(1,2) nb af ne gne at(1) lst(1)
    unfolding c'_def syns3_def syns2_def syns1_def move_def pS_def pG_def cS_def cG_def
      a_def i_def sg_def
    by (simp add: updateSynapsePermanence_def removeSynapseFromPresynapticMap_m_def bindE_def
        isConnected_def clampPermanence_def Let_def)
  have len3: "length syns3 = length (synapses_m c)"
    by (simp add: syns3_def syns2_def syns1_def)
  have pre3: "presynapticCell (syns3 ! y) = presynapticCell (synapses_m c ! y)" for y
    by (simp add: syns3_def syns2_def syns1_def)
  have seg3: "segment (syns3 ! y) = segment (synapses_m c ! y)" for y
    by (simp add: syns3_def syns2_def syns1_def)
  have perm3: "permanence (syns3 ! y)
      = (if y = sy then clampPermanence p else permanence (synapses_m c ! y))" for y
    using f(1) by (simp add: syns3_def syns2_def syns1_def)
  have idx3: "presynapticMapIndex_m (syns3 ! y)
      = (if y = sy then length cS else if y = move then i
         else presynapticMapIndex_m (synapses_m c ! y))" for y
    using f(1) lst(1) by (simp add: syns3_def syns2_def syns1_def)
  have s3: "synapses_m c' = syns3" by (simp add: c'_def)
  have pw: "permanenceWritten c sy (clampPermanence p) c'"
    using pre3 seg3 perm3 len3 by (simp add: permanenceWritten_def sameShape_def c'_def)
  then have sh: "sameShape c c'" by (simp add: permanenceWritten_def)
  have con: "isConnected c' y = (if y = sy then False else isConnected c y)" for y
    using perm3[of y] af by (simp add: isConnected_def c'_def)
  have lv': "live c' y = live c y" for y by (rule live_sameShape[OF sh])
  have "wfCells c'" using wellFormed sh by (auto simp: wellFormed_def intro: wfCells_sameShape)
  moreover have "wfSegments c'"
  proof (rule wfSegments_sameShape[OF _ sh])
    show "wfSegments c" using wellFormed by (simp add: wellFormed_def)
    fix s assume s: "s < length (segments_m c)"
    note sf = wf_segment_facts[OF wellFormed s]
    show "numConnected (segments_m c' ! s)
         = length (filter (isConnected c') (synapses (segments_m c ! s)))"
    proof (cases "s = sg")
      case True
      have "length (filter (isConnected c') (synapses (segments_m c ! sg)))
          = length (filter (isConnected c) (synapses (segments_m c ! sg))) - 1"
        using f(3,4) nb con by (intro filter_flip_out[where sy = sy]) (simp_all add: sg_def)
      then show ?thesis using True s sf(3) by (simp add: c'_def)
    next
      case False
      have "sy \<notin> set (synapses (segments_m c ! s))" using sf(2) False by (auto simp: sg_def)
      then have "filter (isConnected c') (synapses (segments_m c ! s))
          = filter (isConnected c) (synapses (segments_m c ! s))"
        using con by (intro filter_same[where sy = sy]) simp_all
      then show ?thesis using False sf(3) by (simp add: c'_def)
    qed
  qed
  moreover have "wfPermanences c'"
    using wellFormed clampPermanence_range[of p] perm3
    by (simp add: wellFormed_def wfPermanences_def lv' s3 len3) (simp add: c'_def)
  moreover have "wfPresyn c'"
  proof -
    have "presynListsOK syns3 (\<lambda>y. (live c y \<and> isConnected c y) \<and> y \<noteq> sy)
        (connectedSynapsesForPresynapticCell_m c') (connectedSegmentsForPresynapticCell_m c')"
    proof (rule presynListsOK_remove[OF okp f(1) Mp len3])
      fix y assume "y < length (synapses_m c)" "live c y \<and> isConnected c y" "y \<noteq> sy"
      then show "presynapticCell (syns3 ! y) = presynapticCell (synapses_m c ! y) \<and>
        segment (syns3 ! y) = segment (synapses_m c ! y) \<and>
        presynapticMapIndex_m (syns3 ! y)
          = (if y = last (entry (connectedSynapsesForPresynapticCell_m c)
                      (presynapticCell (synapses_m c ! sy)))
             then presynapticMapIndex_m (synapses_m c ! sy)
             else presynapticMapIndex_m (synapses_m c ! y))"
        using pre3 seg3 idx3 by (simp add: move_def pS_def a_def i_def)
    next
      fix b
      show "entry (connectedSynapsesForPresynapticCell_m c') b
          = (if b = presynapticCell (synapses_m c ! sy)
             then butlast ((entry (connectedSynapsesForPresynapticCell_m c) b)
                    [presynapticMapIndex_m (synapses_m c ! sy)
                       := last (entry (connectedSynapsesForPresynapticCell_m c) b)])
             else entry (connectedSynapsesForPresynapticCell_m c) b)"
        by (simp add: c'_def move_def pS_def a_def i_def)
      show "entry (connectedSegmentsForPresynapticCell_m c') b
          = (if b = presynapticCell (synapses_m c ! sy)
             then butlast ((entry (connectedSegmentsForPresynapticCell_m c) b)
                    [presynapticMapIndex_m (synapses_m c ! sy)
                       := last (entry (connectedSegmentsForPresynapticCell_m c) b)])
             else entry (connectedSegmentsForPresynapticCell_m c) b)"
        by (simp add: c'_def pG_def a_def i_def)
    qed
    then have 1: "presynListsOK (synapses_m c') (\<lambda>y. live c' y \<and> isConnected c' y)
        (connectedSynapsesForPresynapticCell_m c') (connectedSegmentsForPresynapticCell_m c')"
      unfolding s3 by (rule presynListsOK_M_cong) (auto simp: con lv')
    have "presynListsOK syns3 (\<lambda>y. live c' y \<and> \<not> isConnected c' y)
        (potentialSynapsesForPresynapticCell_m c') (potentialSegmentsForPresynapticCell_m c')"
    proof (rule presynListsOK_append[OF okc, where sy = sy])
      fix y assume "live c y \<and> \<not> isConnected c y"
      then show "y < length (synapses_m c)" by (simp add: live_def)
    next
      show "sy < length syns3" using f(1) len3 by simp
      show "\<not> (live c sy \<and> \<not> isConnected c sy)" using nb by simp
      show "length (synapses_m c) \<le> length syns3" using len3 by simp
    next
      fix y assume y: "live c y \<and> \<not> isConnected c y"
      then have "y \<noteq> sy" using nb by auto
      moreover have "y \<noteq> move" using y lst(2) by auto
      ultimately show "presynapticCell (syns3 ! y) = presynapticCell (synapses_m c ! y) \<and>
        segment (syns3 ! y) = segment (synapses_m c ! y) \<and>
        presynapticMapIndex_m (syns3 ! y) = presynapticMapIndex_m (synapses_m c ! y)"
        using pre3 seg3 idx3 by simp
    next
      show "presynapticMapIndex_m (syns3 ! sy)
          = length (entry (potentialSynapsesForPresynapticCell_m c) (presynapticCell (syns3 ! sy)))"
        using idx3 pre3 by (simp add: cS_def a_def)
    next
      fix b
      show "entry (potentialSynapsesForPresynapticCell_m c') b
          = (if b = presynapticCell (syns3 ! sy)
             then entry (potentialSynapsesForPresynapticCell_m c) b @ [sy]
             else entry (potentialSynapsesForPresynapticCell_m c) b)"
        using pre3 by (simp add: c'_def cS_def a_def)
      show "entry (potentialSegmentsForPresynapticCell_m c') b
          = (if b = presynapticCell (syns3 ! sy)
             then entry (potentialSegmentsForPresynapticCell_m c) b @ [segment (syns3 ! sy)]
             else entry (potentialSegmentsForPresynapticCell_m c) b)"
        using pre3 seg3 by (simp add: c'_def cG_def a_def sg_def)
    next
      fix y assume "y < length syns3"
      then show "(live c' y \<and> \<not> isConnected c' y) = ((live c y \<and> \<not> isConnected c y) \<or> y = sy)"
        using lv by (auto simp: con lv')
    qed
    then have 2: "presynListsOK (synapses_m c') (\<lambda>y. live c' y \<and> \<not> isConnected c' y)
        (potentialSynapsesForPresynapticCell_m c') (potentialSegmentsForPresynapticCell_m c')"
      unfolding s3 .
    show ?thesis using 1 2 by (simp add: wfPresyn_def)
  qed
  ultimately show ?thesis using res pw by (auto simp: wellFormed_def)
qed

text \<open>
  \<open>updateSynapsePermanence\<close> on a live synapse of a well-formed state succeeds, keeps the
  state well-formed and writes the clamped permanence.
\<close>

lemma updateSynapsePermanence_wf:
  assumes "wellFormed c" "live c sy"
  shows "\<exists>c'. updateSynapsePermanence c sy p = Inr c' \<and> wellFormed c' \<and>
           permanenceWritten c sy (clampPermanence p) c'"
proof (cases "isConnected c sy = (clampPermanence p \<ge> connectedThreshold_m c)")
  case True
  then show ?thesis by (rule updateSynapsePermanence_same_status[OF assms])
next
  case False
  show ?thesis
  proof (cases "isConnected c sy")
    case True
    then show ?thesis using False by (intro updateSynapsePermanence_disconnect[OF assms]) simp_all
  next
    case nc: False
    then show ?thesis using False by (intro updateSynapsePermanence_connect[OF assms]) simp_all
  qed
qed

section \<open>Destroying a synapse keeps the invariants\<close>

lemma firstIndex_Some:
  "x \<in> set xs \<Longrightarrow> \<exists>i. firstIndex x xs = Some i \<and> i < length xs \<and> xs ! i = x"
  by (induction xs) auto

lemma firstIndex_None: "x \<notin> set xs \<Longrightarrow> firstIndex x xs = None"
  by (induction xs) auto

lemma mset_butlast: "xs \<noteq> [] \<Longrightarrow> mset (butlast xs) = mset xs - {#last xs#}"
  by (induction xs rule: rev_induct) simp_all

lemma mset_swap_remove:
  assumes "i < length xs"
  shows "mset (butlast (xs[i := last xs])) = mset (remove1 (xs ! i) xs)"
proof (cases "i = length xs - 1")
  case True
  have ne: "xs \<noteq> []" using assms by auto
  then have l: "last xs = xs ! i" using True by (simp add: last_conv_nth)
  then have "xs[i := last xs] = xs" by simp
  then show ?thesis using ne l by (simp add: mset_butlast)
next
  case False
  have ne: "xs \<noteq> []" using assms by auto
  have l: "last (xs[i := last xs]) = last xs"
    using False assms ne by (simp add: last_conv_nth)
  have "mset (butlast (xs[i := last xs])) = mset (xs[i := last xs]) - {#last xs#}"
    using ne l by (simp add: mset_butlast)
  then show ?thesis using assms by (simp add: mset_update)
qed

lemma eraseFromSegment_mset:
  assumes "sy \<in> set xs"
  shows "mset (eraseFromSegment sy xs) = mset (remove1 sy xs)"
proof -
  obtain i where "firstIndex sy xs = Some i" "i < length xs" "xs ! i = sy"
    using firstIndex_Some[OF assms] by blast
  then show ?thesis using mset_swap_remove[of i xs] by (simp add: eraseFromSegment_def)
qed

lemma eraseFromSegment_notin: "sy \<notin> set xs \<Longrightarrow> eraseFromSegment sy xs = xs"
  by (simp add: eraseFromSegment_def firstIndex_None)

lemma eraseFromSegment_facts:
  assumes "sy \<in> set xs" "distinct xs"
  shows "set (eraseFromSegment sy xs) = set xs - {sy}"
    "distinct (eraseFromSegment sy xs)"
    "length (eraseFromSegment sy xs) = length xs - 1"
    "length (filter P (eraseFromSegment sy xs))
       = length (filter P xs) - (if P sy then 1 else 0)"
    "distinct (map f xs) \<Longrightarrow> distinct (map f (eraseFromSegment sy xs))"
proof -
  let ?ys = "eraseFromSegment sy xs"
  note m = eraseFromSegment_mset[OF assms(1)]
  have r: "remove1 sy xs = filter (\<lambda>y. y \<noteq> sy) xs"
    using assms(2) by (simp add: distinct_remove1_removeAll removeAll_filter_not_eq) metis
  show "distinct ?ys"
    using m assms(2) by (metis distinct_remove1 mset_eq_imp_distinct_iff)
  show "set ?ys = set xs - {sy}"
    using m assms(2) by (metis set_remove1_eq set_mset_mset)
  show "length ?ys = length xs - 1"
    using m assms(1) by (metis length_remove1 mset_eq_length)
  have "mset (filter P ?ys) = mset (filter P (remove1 sy xs))"
    using m by (metis mset_filter)
  then have "length (filter P ?ys) = length (filter (\<lambda>y. y \<noteq> sy \<and> P y) xs)"
    unfolding r by (metis (mono_tags, lifting) filter_cong filter_filter mset_eq_length)
  moreover have "length (filter (\<lambda>y. y \<noteq> sy \<and> P y) xs) = length (filter P xs) - 1" if "P sy"
    using assms that by (intro filter_flip_out[where sy = sy]) simp_all
  moreover have "filter (\<lambda>y. y \<noteq> sy \<and> P y) xs = filter P xs" if "\<not> P sy"
    using that by (intro filter_cong refl) auto
  ultimately show "length (filter P ?ys) = length (filter P xs) - (if P sy then 1 else 0)"
    by auto
  assume "distinct (map f xs)"
  then have "distinct (map f (remove1 sy xs))" unfolding r by (rule distinct_map_filter)
  moreover have "mset (map f ?ys) = mset (map f (remove1 sy xs))" using m by (metis mset_map)
  ultimately show "distinct (map f ?ys)" by (metis mset_eq_imp_distinct_iff)
qed

lemma entry_store_segments:
  "length gs = length ys \<Longrightarrow>
   entry (if ys = [] then m(a := None) else m(a \<mapsto> gs)) b = (if b = a then gs else entry m b)"
  by (auto simp: entry_def)

lemma wf_live_permanence:
  assumes "wellFormed c" "live c sy"
  shows "permanence (synapses_m c ! sy) \<noteq> - 1"
  using assms by (auto simp: wellFormed_def wfPermanences_def minPermanence_def)

text \<open>Destroying a connected synapse.\<close>

lemma destroySynapse_connected:
  assumes wf: "wellFormed c" and lv: "live c sy" and nb: "isConnected c sy"
  shows "\<exists>c'. destroySynapse c sy = Inr c' \<and> wellFormed c' \<and> synapseRemoved c sy c'"
proof -
  define a where "a = presynapticCell (synapses_m c ! sy)"
  define i where "i = presynapticMapIndex_m (synapses_m c ! sy)"
  define sg where "sg = segment (synapses_m c ! sy)"
  define pS where "pS = entry (connectedSynapsesForPresynapticCell_m c) a"
  define pG where "pG = entry (connectedSegmentsForPresynapticCell_m c) a"
  define move where "move = last pS"
  define syns2 where
    "syns2 = (synapses_m c)[move := (synapses_m c ! move)\<lparr> presynapticMapIndex_m := i \<rparr>]"
  define segs2 where "segs2 = (segments_m c)[sg := (segments_m c ! sg)
         \<lparr> numConnected := numConnected (segments_m c ! sg) - 1,
           synapses := eraseFromSegment sy (synapses (segments_m c ! sg)) \<rparr>]"
  define c' where "c' = c\<lparr>
      synapses_m := syns2,
      segments_m := segs2,
      connectedSynapsesForPresynapticCell_m :=
        storeOrErase (connectedSynapsesForPresynapticCell_m c) a (butlast (pS[i := move])),
      connectedSegmentsForPresynapticCell_m :=
        (if butlast (pS[i := move]) = []
         then (connectedSegmentsForPresynapticCell_m c)(a := None)
         else (connectedSegmentsForPresynapticCell_m c)(a \<mapsto> butlast (pG[i := last pG]))),
      destroyedSynapses_m := destroyedSynapses_m c @ [sy] \<rparr>"
  note f = wf_live_facts[OF wf lv]
  note okc = wf_presyn_facts(2)[OF wf]
  note okp = wf_presyn_facts(1)[OF wf]
  have Mp: "live c sy \<and> isConnected c sy" using lv nb by simp
  note at = presynListsOK_at[OF okp f(1) Mp, folded a_def i_def pS_def]
  have ne: "pS \<noteq> []" using at(1) by auto
  note lst = presynListsOK_last[OF okp ne[unfolded pS_def], folded pS_def move_def]
  have glen: "length pG = length pS"
    using presynListsOK_len[OF okp, of a] by (simp add: pG_def pS_def)
  have gne: "pG \<noteq> []" "i < length pG" using glen ne at(1) by auto
  have some: "connectedSynapsesForPresynapticCell_m c a = Some pS"
    "connectedSegmentsForPresynapticCell_m c a = Some pG"
    using ne gne(1) entry_Some unfolding pS_def pG_def by metis+
  have res: "destroySynapse c sy = Inr c'"
    using f(1,2) nb ne gne at(1) lst(1) wf_live_permanence[OF wf lv] some
    unfolding c'_def syns2_def segs2_def move_def a_def i_def sg_def
    by (simp add: destroySynapse_def synapseExists_m_def
        removeSynapseFromPresynapticMap_m_def bindE_def isConnected_def Let_def)
  have s3: "synapses_m c' = syns2" by (simp add: c'_def)
  have len3: "length syns2 = length (synapses_m c)" by (simp add: syns2_def)
  have pre3: "presynapticCell (syns2 ! y) = presynapticCell (synapses_m c ! y)" for y
    by (simp add: syns2_def)
  have seg3: "segment (syns2 ! y) = segment (synapses_m c ! y)" for y
    by (simp add: syns2_def)
  have perm3: "permanence (syns2 ! y) = permanence (synapses_m c ! y)" for y
    by (simp add: syns2_def)
  have idx3: "presynapticMapIndex_m (syns2 ! y)
      = (if y = move then i else presynapticMapIndex_m (synapses_m c ! y))" for y
    using lst(1) by (simp add: syns2_def)
  have cell2: "cell (segs2 ! s) = cell (segments_m c ! s)" for s
    using f(2) by (cases "s = sg") (simp_all add: segs2_def sg_def)
  have syn2: "synapses (segs2 ! s) = (if s = sg
       then eraseFromSegment sy (synapses (segments_m c ! s)) else synapses (segments_m c ! s))" for s
    using f(2) by (cases "s = sg") (simp_all add: segs2_def sg_def)
  have num2: "numConnected (segs2 ! s) = (if s = sg
       then numConnected (segments_m c ! s) - 1 else numConnected (segments_m c ! s))" for s
    using f(2) by (cases "s = sg") (simp_all add: segs2_def sg_def)
  have rem: "synapseRemoved c sy c'"
    using pre3 seg3 perm3 len3 cell2 syn2
    by (simp add: synapseRemoved_def c'_def sg_def) (simp add: segs2_def)
  have con: "isConnected c' y = isConnected c y" for y
    using perm3[of y] by (simp add: isConnected_def c'_def)
  have lv': "live c' y = (live c y \<and> y \<noteq> sy)" for y
    using len3 by (auto simp: live_def c'_def)
  note er = eraseFromSegment_facts[OF f(3,4), folded sg_def]
  have "wfCells c'"
  proof -
    have ls: "liveSegment c' s = liveSegment c s" for s
      by (simp add: liveSegment_def c'_def segs2_def)
    have "synapses (segs2 ! s) = []" if "synapses (segments_m c ! s) = []" for s
    proof (cases "s = sg")
      case True
      then have "synapses (segments_m c ! sg) = []" using that by simp
      then show ?thesis using True by (simp add: syn2 eraseFromSegment_notin)
    next
      case False
      then show ?thesis using that by (simp add: syn2)
    qed
    then show ?thesis
      using wf cell2 unfolding wellFormed_def wfCells_def ls
      by (simp add: c'_def) (simp add: segs2_def)
  qed
  moreover have "wfSegments c'"
  proof -
    have A: "distinct (synapses (segs2 ! s)) \<and>
         (\<forall>y \<in> set (synapses (segs2 ! s)). live c' y \<and> segment (syns2 ! y) = s) \<and>
         distinct (map (\<lambda>y. presynapticCell (syns2 ! y)) (synapses (segs2 ! s))) \<and>
         numConnected (segs2 ! s) = length (filter (isConnected c') (synapses (segs2 ! s)))"
      if s: "s < length (segments_m c)" for s
    proof (cases "s = sg")
      case True
      have wfs: "wfSegments c" using wf by (simp add: wellFormed_def)
      have d: "distinct (map (\<lambda>y. presynapticCell (synapses_m c ! y)) (synapses (segments_m c ! sg)))"
        using wfs s True by (simp add: wfSegments_def)
      have c'c: "isConnected c' = isConnected c" using con by auto
      show ?thesis
        using True er(1,2) er(5)[OF d] er(4)[of "isConnected c"] wf_segment_facts(2,3)[OF wf s] nb
        by (simp add: syn2 num2 lv' seg3 pre3 c'c)
    next
      case False
      have c'c: "isConnected c' = isConnected c" using con by auto
      have "sy \<notin> set (synapses (segments_m c ! s))"
        using wf_segment_facts(2)[OF wf s] False by (auto simp: sg_def)
      then show ?thesis
        using False wf_segment_facts[OF wf s] wf s
        by (auto simp: syn2 num2 lv' seg3 pre3 c'c wellFormed_def wfSegments_def)
    qed
    have B: "segment (syns2 ! y) < length (segments_m c) \<and>
         y \<in> set (synapses (segs2 ! segment (syns2 ! y)))" if "live c' y" for y
    proof -
      have y: "live c y" "y \<noteq> sy" using that lv' by auto
      note fy = wf_live_facts[OF wf y(1)]
      show ?thesis using fy y(2) er(1) by (auto simp: seg3 syn2)
    qed
    have C: "distinct (destroyedSynapses_m c') \<and>
      (\<forall>y \<in> set (destroyedSynapses_m c'). y < length syns2)"
      using wf lv len3 by (auto simp: wellFormed_def wfSegments_def live_def c'_def)
    have sm: "segments_m c' = segs2" "length segs2 = length (segments_m c)"
      by (simp_all add: c'_def segs2_def)
    show ?thesis
      unfolding wfSegments_def s3 sm
      by (intro conjI allI impI) (simp_all add: A B C)
  qed
  moreover have "wfPermanences c'"
    using wf perm3 by (simp add: wellFormed_def wfPermanences_def lv' s3 len3) (simp add: c'_def)
  moreover have "wfPresyn c'"
  proof -
    have "presynListsOK syns2 (\<lambda>y. (live c y \<and> isConnected c y) \<and> y \<noteq> sy)
        (connectedSynapsesForPresynapticCell_m c') (connectedSegmentsForPresynapticCell_m c')"
    proof (rule presynListsOK_remove[OF okp f(1) Mp len3])
      fix y assume "y < length (synapses_m c)" "live c y \<and> isConnected c y" "y \<noteq> sy"
      then show "presynapticCell (syns2 ! y) = presynapticCell (synapses_m c ! y) \<and>
        segment (syns2 ! y) = segment (synapses_m c ! y) \<and>
        presynapticMapIndex_m (syns2 ! y)
          = (if y = last (entry (connectedSynapsesForPresynapticCell_m c)
                      (presynapticCell (synapses_m c ! sy)))
             then presynapticMapIndex_m (synapses_m c ! sy)
             else presynapticMapIndex_m (synapses_m c ! y))"
        using pre3 seg3 idx3 by (simp add: move_def pS_def a_def i_def)
    next
      fix b
      show "entry (connectedSynapsesForPresynapticCell_m c') b
          = (if b = presynapticCell (synapses_m c ! sy)
             then butlast ((entry (connectedSynapsesForPresynapticCell_m c) b)
                    [presynapticMapIndex_m (synapses_m c ! sy)
                       := last (entry (connectedSynapsesForPresynapticCell_m c) b)])
             else entry (connectedSynapsesForPresynapticCell_m c) b)"
        by (simp add: c'_def move_def pS_def a_def i_def)
      have "length (butlast (pG[i := last pG])) = length (butlast (pS[i := move]))"
        using glen by simp
      then show "entry (connectedSegmentsForPresynapticCell_m c') b
          = (if b = presynapticCell (synapses_m c ! sy)
             then butlast ((entry (connectedSegmentsForPresynapticCell_m c) b)
                    [presynapticMapIndex_m (synapses_m c ! sy)
                       := last (entry (connectedSegmentsForPresynapticCell_m c) b)])
             else entry (connectedSegmentsForPresynapticCell_m c) b)"
        by (simp add: c'_def entry_store_segments del: length_butlast)
           (simp add: pG_def a_def i_def)
    qed
    then have 1: "presynListsOK (synapses_m c') (\<lambda>y. live c' y \<and> isConnected c' y)
        (connectedSynapsesForPresynapticCell_m c') (connectedSegmentsForPresynapticCell_m c')"
      unfolding s3 by (rule presynListsOK_M_cong) (auto simp: con lv')
    have "presynListsOK syns2 (\<lambda>y. live c' y \<and> \<not> isConnected c' y)
        (potentialSynapsesForPresynapticCell_m c') (potentialSegmentsForPresynapticCell_m c')"
    proof (rule presynListsOK_cong[OF okc len3])
      fix y assume "y < length (synapses_m c)"
      show "(live c' y \<and> \<not> isConnected c' y) = (live c y \<and> \<not> isConnected c y)"
        using nb by (auto simp: con lv')
    next
      fix y assume y: "y < length (synapses_m c)" "live c y \<and> \<not> isConnected c y"
      then have "y \<noteq> move" using lst(2) by auto
      then show "presynapticCell (syns2 ! y) = presynapticCell (synapses_m c ! y) \<and>
        presynapticMapIndex_m (syns2 ! y) = presynapticMapIndex_m (synapses_m c ! y) \<and>
        segment (syns2 ! y) = segment (synapses_m c ! y)"
        using pre3 seg3 idx3 by simp
    next
      fix b
      show "entry (potentialSynapsesForPresynapticCell_m c') b
            = entry (potentialSynapsesForPresynapticCell_m c) b \<and>
          entry (potentialSegmentsForPresynapticCell_m c') b
            = entry (potentialSegmentsForPresynapticCell_m c) b"
        by (simp add: c'_def)
    qed
    then have 2: "presynListsOK (synapses_m c') (\<lambda>y. live c' y \<and> \<not> isConnected c' y)
        (potentialSynapsesForPresynapticCell_m c') (potentialSegmentsForPresynapticCell_m c')"
      unfolding s3 .
    show ?thesis using 1 2 by (simp add: wfPresyn_def)
  qed
  ultimately show ?thesis using res rem by (auto simp: wellFormed_def)
qed

text \<open>Destroying a potential synapse.\<close>

lemma destroySynapse_potential:
  assumes wf: "wellFormed c" and lv: "live c sy" and nb: "\<not> isConnected c sy"
  shows "\<exists>c'. destroySynapse c sy = Inr c' \<and> wellFormed c' \<and> synapseRemoved c sy c'"
proof -
  define a where "a = presynapticCell (synapses_m c ! sy)"
  define i where "i = presynapticMapIndex_m (synapses_m c ! sy)"
  define sg where "sg = segment (synapses_m c ! sy)"
  define pS where "pS = entry (potentialSynapsesForPresynapticCell_m c) a"
  define pG where "pG = entry (potentialSegmentsForPresynapticCell_m c) a"
  define move where "move = last pS"
  define syns2 where
    "syns2 = (synapses_m c)[move := (synapses_m c ! move)\<lparr> presynapticMapIndex_m := i \<rparr>]"
  define segs2 where "segs2 = (segments_m c)[sg := (segments_m c ! sg)
         \<lparr> synapses := eraseFromSegment sy (synapses (segments_m c ! sg)) \<rparr>]"
  define c' where "c' = c\<lparr>
      synapses_m := syns2,
      segments_m := segs2,
      potentialSynapsesForPresynapticCell_m :=
        storeOrErase (potentialSynapsesForPresynapticCell_m c) a (butlast (pS[i := move])),
      potentialSegmentsForPresynapticCell_m :=
        (if butlast (pS[i := move]) = []
         then (potentialSegmentsForPresynapticCell_m c)(a := None)
         else (potentialSegmentsForPresynapticCell_m c)(a \<mapsto> butlast (pG[i := last pG]))),
      destroyedSynapses_m := destroyedSynapses_m c @ [sy] \<rparr>"
  note f = wf_live_facts[OF wf lv]
  note okc = wf_presyn_facts(1)[OF wf]
  note okp = wf_presyn_facts(2)[OF wf]
  have Mp: "live c sy \<and> \<not> isConnected c sy" using lv nb by simp
  note at = presynListsOK_at[OF okp f(1) Mp, folded a_def i_def pS_def]
  have ne: "pS \<noteq> []" using at(1) by auto
  note lst = presynListsOK_last[OF okp ne[unfolded pS_def], folded pS_def move_def]
  have glen: "length pG = length pS"
    using presynListsOK_len[OF okp, of a] by (simp add: pG_def pS_def)
  have gne: "pG \<noteq> []" "i < length pG" using glen ne at(1) by auto
  have some: "potentialSynapsesForPresynapticCell_m c a = Some pS"
    "potentialSegmentsForPresynapticCell_m c a = Some pG"
    using ne gne(1) entry_Some unfolding pS_def pG_def by metis+
  have res: "destroySynapse c sy = Inr c'"
    using f(1,2) nb ne gne at(1) lst(1) wf_live_permanence[OF wf lv] some
    unfolding c'_def syns2_def segs2_def move_def a_def i_def sg_def
    by (simp add: destroySynapse_def synapseExists_m_def
        removeSynapseFromPresynapticMap_m_def bindE_def isConnected_def Let_def)
  have s3: "synapses_m c' = syns2" by (simp add: c'_def)
  have len3: "length syns2 = length (synapses_m c)" by (simp add: syns2_def)
  have pre3: "presynapticCell (syns2 ! y) = presynapticCell (synapses_m c ! y)" for y
    by (simp add: syns2_def)
  have seg3: "segment (syns2 ! y) = segment (synapses_m c ! y)" for y
    by (simp add: syns2_def)
  have perm3: "permanence (syns2 ! y) = permanence (synapses_m c ! y)" for y
    by (simp add: syns2_def)
  have idx3: "presynapticMapIndex_m (syns2 ! y)
      = (if y = move then i else presynapticMapIndex_m (synapses_m c ! y))" for y
    using lst(1) by (simp add: syns2_def)
  have cell2: "cell (segs2 ! s) = cell (segments_m c ! s)" for s
    using f(2) by (cases "s = sg") (simp_all add: segs2_def sg_def)
  have syn2: "synapses (segs2 ! s) = (if s = sg
       then eraseFromSegment sy (synapses (segments_m c ! s)) else synapses (segments_m c ! s))" for s
    using f(2) by (cases "s = sg") (simp_all add: segs2_def sg_def)
  have num2: "numConnected (segs2 ! s) = numConnected (segments_m c ! s)" for s
    using f(2) by (cases "s = sg") (simp_all add: segs2_def sg_def)
  have rem: "synapseRemoved c sy c'"
    using pre3 seg3 perm3 len3 cell2 syn2
    by (simp add: synapseRemoved_def c'_def sg_def) (simp add: segs2_def)
  have con: "isConnected c' y = isConnected c y" for y
    using perm3[of y] by (simp add: isConnected_def c'_def)
  have lv': "live c' y = (live c y \<and> y \<noteq> sy)" for y
    using len3 by (auto simp: live_def c'_def)
  note er = eraseFromSegment_facts[OF f(3,4), folded sg_def]
  have "wfCells c'"
  proof -
    have ls: "liveSegment c' s = liveSegment c s" for s
      by (simp add: liveSegment_def c'_def segs2_def)
    have "synapses (segs2 ! s) = []" if "synapses (segments_m c ! s) = []" for s
    proof (cases "s = sg")
      case True
      then have "synapses (segments_m c ! sg) = []" using that by simp
      then show ?thesis using True by (simp add: syn2 eraseFromSegment_notin)
    next
      case False
      then show ?thesis using that by (simp add: syn2)
    qed
    then show ?thesis
      using wf cell2 unfolding wellFormed_def wfCells_def ls
      by (simp add: c'_def) (simp add: segs2_def)
  qed
  moreover have "wfSegments c'"
  proof -
    have A: "distinct (synapses (segs2 ! s)) \<and>
         (\<forall>y \<in> set (synapses (segs2 ! s)). live c' y \<and> segment (syns2 ! y) = s) \<and>
         distinct (map (\<lambda>y. presynapticCell (syns2 ! y)) (synapses (segs2 ! s))) \<and>
         numConnected (segs2 ! s) = length (filter (isConnected c') (synapses (segs2 ! s)))"
      if s: "s < length (segments_m c)" for s
    proof (cases "s = sg")
      case True
      have wfs: "wfSegments c" using wf by (simp add: wellFormed_def)
      have d: "distinct (map (\<lambda>y. presynapticCell (synapses_m c ! y)) (synapses (segments_m c ! sg)))"
        using wfs s True by (simp add: wfSegments_def)
      have c'c: "isConnected c' = isConnected c" using con by auto
      show ?thesis
        using True er(1,2) er(5)[OF d] er(4)[of "isConnected c"] wf_segment_facts(2,3)[OF wf s] nb
        by (simp add: syn2 num2 lv' seg3 pre3 c'c)
    next
      case False
      have c'c: "isConnected c' = isConnected c" using con by auto
      have "sy \<notin> set (synapses (segments_m c ! s))"
        using wf_segment_facts(2)[OF wf s] False by (auto simp: sg_def)
      then show ?thesis
        using False wf_segment_facts[OF wf s] wf s
        by (auto simp: syn2 num2 lv' seg3 pre3 c'c wellFormed_def wfSegments_def)
    qed
    have B: "segment (syns2 ! y) < length (segments_m c) \<and>
         y \<in> set (synapses (segs2 ! segment (syns2 ! y)))" if "live c' y" for y
    proof -
      have y: "live c y" "y \<noteq> sy" using that lv' by auto
      note fy = wf_live_facts[OF wf y(1)]
      show ?thesis using fy y(2) er(1) by (auto simp: seg3 syn2)
    qed
    have C: "distinct (destroyedSynapses_m c') \<and>
      (\<forall>y \<in> set (destroyedSynapses_m c'). y < length syns2)"
      using wf lv len3 by (auto simp: wellFormed_def wfSegments_def live_def c'_def)
    have sm: "segments_m c' = segs2" "length segs2 = length (segments_m c)"
      by (simp_all add: c'_def segs2_def)
    show ?thesis
      unfolding wfSegments_def s3 sm
      by (intro conjI allI impI) (simp_all add: A B C)
  qed
  moreover have "wfPermanences c'"
    using wf perm3 by (simp add: wellFormed_def wfPermanences_def lv' s3 len3) (simp add: c'_def)
  moreover have "wfPresyn c'"
  proof -
    have "presynListsOK syns2 (\<lambda>y. (live c y \<and> \<not> isConnected c y) \<and> y \<noteq> sy)
        (potentialSynapsesForPresynapticCell_m c') (potentialSegmentsForPresynapticCell_m c')"
    proof (rule presynListsOK_remove[OF okp f(1) Mp len3])
      fix y assume "y < length (synapses_m c)" "live c y \<and> \<not> isConnected c y" "y \<noteq> sy"
      then show "presynapticCell (syns2 ! y) = presynapticCell (synapses_m c ! y) \<and>
        segment (syns2 ! y) = segment (synapses_m c ! y) \<and>
        presynapticMapIndex_m (syns2 ! y)
          = (if y = last (entry (potentialSynapsesForPresynapticCell_m c)
                      (presynapticCell (synapses_m c ! sy)))
             then presynapticMapIndex_m (synapses_m c ! sy)
             else presynapticMapIndex_m (synapses_m c ! y))"
        using pre3 seg3 idx3 by (simp add: move_def pS_def a_def i_def)
    next
      fix b
      show "entry (potentialSynapsesForPresynapticCell_m c') b
          = (if b = presynapticCell (synapses_m c ! sy)
             then butlast ((entry (potentialSynapsesForPresynapticCell_m c) b)
                    [presynapticMapIndex_m (synapses_m c ! sy)
                       := last (entry (potentialSynapsesForPresynapticCell_m c) b)])
             else entry (potentialSynapsesForPresynapticCell_m c) b)"
        by (simp add: c'_def move_def pS_def a_def i_def)
      have "length (butlast (pG[i := last pG])) = length (butlast (pS[i := move]))"
        using glen by simp
      then show "entry (potentialSegmentsForPresynapticCell_m c') b
          = (if b = presynapticCell (synapses_m c ! sy)
             then butlast ((entry (potentialSegmentsForPresynapticCell_m c) b)
                    [presynapticMapIndex_m (synapses_m c ! sy)
                       := last (entry (potentialSegmentsForPresynapticCell_m c) b)])
             else entry (potentialSegmentsForPresynapticCell_m c) b)"
        by (simp add: c'_def entry_store_segments del: length_butlast)
           (simp add: pG_def a_def i_def)
    qed
    then have 1: "presynListsOK (synapses_m c') (\<lambda>y. live c' y \<and> \<not> isConnected c' y)
        (potentialSynapsesForPresynapticCell_m c') (potentialSegmentsForPresynapticCell_m c')"
      unfolding s3 by (rule presynListsOK_M_cong) (auto simp: con lv')
    have "presynListsOK syns2 (\<lambda>y. live c' y \<and> isConnected c' y)
        (connectedSynapsesForPresynapticCell_m c') (connectedSegmentsForPresynapticCell_m c')"
    proof (rule presynListsOK_cong[OF okc len3])
      fix y assume "y < length (synapses_m c)"
      show "(live c' y \<and> isConnected c' y) = (live c y \<and> isConnected c y)"
        using nb by (auto simp: con lv')
    next
      fix y assume y: "y < length (synapses_m c)" "live c y \<and> isConnected c y"
      then have "y \<noteq> move" using lst(2) by auto
      then show "presynapticCell (syns2 ! y) = presynapticCell (synapses_m c ! y) \<and>
        presynapticMapIndex_m (syns2 ! y) = presynapticMapIndex_m (synapses_m c ! y) \<and>
        segment (syns2 ! y) = segment (synapses_m c ! y)"
        using pre3 seg3 idx3 by simp
    next
      fix b
      show "entry (connectedSynapsesForPresynapticCell_m c') b
            = entry (connectedSynapsesForPresynapticCell_m c) b \<and>
          entry (connectedSegmentsForPresynapticCell_m c') b
            = entry (connectedSegmentsForPresynapticCell_m c) b"
        by (simp add: c'_def)
    qed
    then have 2: "presynListsOK (synapses_m c') (\<lambda>y. live c' y \<and> isConnected c' y)
        (connectedSynapsesForPresynapticCell_m c') (connectedSegmentsForPresynapticCell_m c')"
      unfolding s3 .
    show ?thesis using 1 2 by (simp add: wfPresyn_def)
  qed
  ultimately show ?thesis using res rem by (auto simp: wellFormed_def)
qed

text \<open>
  \<open>destroySynapse\<close> on a live synapse of a well-formed state succeeds and keeps the state
  well-formed.
\<close>

lemma destroySynapse_wf:
  assumes "wellFormed c" "live c sy"
  shows "\<exists>c'. destroySynapse c sy = Inr c' \<and> wellFormed c' \<and> synapseRemoved c sy c'"
  using destroySynapse_connected[OF assms] destroySynapse_potential[OF assms]
  by (cases "isConnected c sy") blast+

section \<open>Activity counts\<close>

lemma countSegments_ok:
  "\<forall>sg \<in> set sgs. sg < length v \<Longrightarrow>
   \<exists>v'. countSegments v sgs = Inr v' \<and> length v' = length v \<and>
        (\<forall>s < length v. v' ! s = v ! s + count_list sgs s)"
proof (induction sgs arbitrary: v)
  case Nil
  then show ?case by simp
next
  case (Cons sg sgs)
  have "\<forall>x \<in> set sgs. x < length (v[sg := v ! sg + 1])" using Cons.prems by simp
  from Cons.IH[OF this] obtain v' where v': "countSegments (v[sg := v ! sg + 1]) sgs = Inr v'"
    "length v' = length v"
    "\<forall>s < length v. v' ! s = (v[sg := v ! sg + 1]) ! s + count_list sgs s"
    by auto
  have "v' ! s = v ! s + count_list (sg # sgs) s" if "s < length v" for s
    using v'(3) that Cons.prems by (cases "s = sg") (simp_all add: nth_list_update)
  then show ?case using v'(1,2) Cons.prems by simp
qed

lemma activityLoop_ok:
  "\<forall>a \<in> set A. \<forall>sg \<in> set (entry m a). sg < length v \<Longrightarrow>
   \<exists>v'. activityLoop m v A = Inr v' \<and> length v' = length v \<and>
        (\<forall>s < length v. v' ! s = v ! s + sum_list (map (\<lambda>a. count_list (entry m a) s) A))"
proof (induction A arbitrary: v)
  case Nil
  then show ?case by simp
next
  case (Cons a A)
  have "\<forall>sg \<in> set (entry m a). sg < length v" using Cons.prems by simp
  from countSegments_ok[OF this] obtain v1 where v1: "countSegments v (entry m a) = Inr v1"
    "length v1 = length v" "\<forall>s < length v. v1 ! s = v ! s + count_list (entry m a) s"
    by blast
  have "\<forall>a \<in> set A. \<forall>sg \<in> set (entry m a). sg < length v1" using Cons.prems v1(2) by simp
  from Cons.IH[OF this] obtain v' where v': "activityLoop m v1 A = Inr v'"
    "length v' = length v1"
    "\<forall>s < length v1. v' ! s = v1 ! s + sum_list (map (\<lambda>a. count_list (entry m a) s) A)"
    by blast
  have step: "activityLoop m v (a # A) = activityLoop m v1 A"
  proof (cases "m a")
    case None
    then have "entry m a = []" by (simp add: entry_def)
    then have "v1 = v" using v1(1) by simp
    then show ?thesis using None by simp
  next
    case (Some sgs)
    then have "entry m a = sgs" by (simp add: entry_def)
    then show ?thesis using Some v1(1) by (simp add: bindE_def)
  qed
  show ?case using v' v1 step by (simp add: add.assoc)
qed

lemma presynListsOK_set:
  assumes ok: "presynListsOK syns M sm gm" and b: "\<And>y. M y \<Longrightarrow> y < length syns"
  shows "set (entry sm a) = {y. M y \<and> presynapticCell (syns ! y) = a}"
proof (intro set_eqI iffI)
  fix y assume "y \<in> set (entry sm a)"
  then obtain i where "i < length (entry sm a)" "entry sm a ! i = y"
    by (auto simp: in_set_conv_nth)
  then show "y \<in> {y. M y \<and> presynapticCell (syns ! y) = a}"
    using presynListsOK_nth[OF ok] by blast
next
  fix y assume "y \<in> {y. M y \<and> presynapticCell (syns ! y) = a}"
  then have y: "M y" "presynapticCell (syns ! y) = a" by auto
  then show "y \<in> set (entry sm a)"
    using presynListsOK_at[OF ok b[OF y(1)] y(1)] by (metis nth_mem)
qed

lemma presynListsOK_segments:
  assumes ok: "presynListsOK syns M sm gm"
  shows "entry gm a = map (\<lambda>y. segment (syns ! y)) (entry sm a)"
  using presynListsOK_len[OF ok, of a] presynListsOK_nth(5)[OF ok]
  by (intro nth_equalityI) simp_all

lemma count_list_map: "count_list (map f ys) s = length (filter (\<lambda>y. f y = s) ys)"
  by (induction ys) simp_all

lemma length_filter_disj:
  "(\<And>y. y \<in> set xs \<Longrightarrow> \<not> (P y \<and> Q y)) \<Longrightarrow>
   length (filter (\<lambda>y. P y \<or> Q y) xs) = length (filter P xs) + length (filter Q xs)"
  by (induction xs) auto

lemma distinct_same_set_length:
  "distinct xs \<Longrightarrow> distinct ys \<Longrightarrow> set xs = set ys \<Longrightarrow> length xs = length ys"
  by (metis distinct_card)

text \<open>The synapses of a segment are the live synapses that name it.\<close>

lemma wf_segment_synapses:
  assumes "wellFormed c" "s < length (segments_m c)"
  shows "set (synapses (segments_m c ! s)) = {y. live c y \<and> segment (synapses_m c ! y) = s}"
  using wf_segment_facts(2)[OF assms] assms
  by (auto simp: wellFormed_def wfSegments_def)

lemma connected_count_for_cell:
  assumes wf: "wellFormed c" and s: "s < length (segments_m c)"
  shows "count_list (entry (connectedSegmentsForPresynapticCell_m c) a) s
      = length (filter (\<lambda>y. isConnected c y \<and> presynapticCell (synapses_m c ! y) = a)
                  (synapses (segments_m c ! s)))"
proof -
  note ok = wf_presyn_facts(1)[OF wf]
  let ?ys = "entry (connectedSynapsesForPresynapticCell_m c) a"
  have b: "\<And>y. live c y \<and> isConnected c y \<Longrightarrow> y < length (synapses_m c)"
    by (simp add: live_def)
  have st: "set ?ys = {y. (live c y \<and> isConnected c y) \<and> presynapticCell (synapses_m c ! y) = a}"
    by (rule presynListsOK_set[OF ok b])
  have "count_list (entry (connectedSegmentsForPresynapticCell_m c) a) s
      = length (filter (\<lambda>y. segment (synapses_m c ! y) = s) ?ys)"
    by (simp add: presynListsOK_segments[OF ok] count_list_map)
  also have "\<dots> = length (filter (\<lambda>y. isConnected c y \<and> presynapticCell (synapses_m c ! y) = a)
                  (synapses (segments_m c ! s)))"
  proof (rule distinct_same_set_length)
    show "distinct (filter (\<lambda>y. segment (synapses_m c ! y) = s) ?ys)"
      using presynListsOK_distinct[OF ok] by simp
    show "distinct (filter (\<lambda>y. isConnected c y \<and> presynapticCell (synapses_m c ! y) = a)
                  (synapses (segments_m c ! s)))"
      using wf_segment_facts(1)[OF wf s] by simp
    show "set (filter (\<lambda>y. segment (synapses_m c ! y) = s) ?ys)
        = set (filter (\<lambda>y. isConnected c y \<and> presynapticCell (synapses_m c ! y) = a)
                  (synapses (segments_m c ! s)))"
      unfolding set_filter st wf_segment_synapses[OF wf s] by auto
  qed
  finally show ?thesis .
qed

lemma connected_count_for_cells:
  assumes wf: "wellFormed c" and s: "s < length (segments_m c)" and d: "distinct A"
  shows "sum_list (map (\<lambda>a. count_list (entry (connectedSegmentsForPresynapticCell_m c) a) s) A)
      = length (filter (\<lambda>y. isConnected c y \<and> presynapticCell (synapses_m c ! y) \<in> set A)
                  (synapses (segments_m c ! s)))"
  using d
proof (induction A)
  case Nil
  then show ?case by simp
next
  case (Cons a A)
  let ?xs = "synapses (segments_m c ! s)"
  have "length (filter (\<lambda>y. isConnected c y \<and> presynapticCell (synapses_m c ! y) \<in> set (a # A)) ?xs)
      = length (filter (\<lambda>y. (isConnected c y \<and> presynapticCell (synapses_m c ! y) = a)
                            \<or> (isConnected c y \<and> presynapticCell (synapses_m c ! y) \<in> set A)) ?xs)"
    by (intro arg_cong[where f = length] filter_cong refl) auto
  also have "\<dots> = length (filter (\<lambda>y. isConnected c y \<and> presynapticCell (synapses_m c ! y) = a) ?xs)
      + length (filter (\<lambda>y. isConnected c y \<and> presynapticCell (synapses_m c ! y) \<in> set A) ?xs)"
    using Cons.prems by (intro length_filter_disj) auto
  finally show ?case
    using Cons connected_count_for_cell[OF wf s, of a] by simp
qed

lemma computeActivity_counts:
  assumes wf: "wellFormed c" and d: "distinct A"
  shows "\<exists>v c'. computeActivity c A learn = Inr (v, c') \<and>
           length v = length (segments_m c) \<and>
           (\<forall>s < length (segments_m c).
              v ! s = length (filter (\<lambda>y. isConnected c y \<and>
                                  presynapticCell (synapses_m c ! y) \<in> set A)
                        (synapses (segments_m c ! s)))) \<and>
           c' = (let c1 = (if learn then c\<lparr> iteration_m := iteration_m c + 1 \<rparr> else c)
                 in if timeseries_m c1
                    then c1\<lparr> previousUpdates_m := currentUpdates_m c1, currentUpdates_m := [] \<rparr>
                    else c1)"
proof -
  let ?m = "connectedSegmentsForPresynapticCell_m c"
  let ?v0 = "replicate (length (segments_m c)) (0::nat)"
  note ok = wf_presyn_facts(1)[OF wf]
  have rng: "sg < length ?v0" if "sg \<in> set (entry ?m a)" for a sg
  proof -
    from that obtain i where i: "i < length (entry ?m a)" "entry ?m a ! i = sg"
      by (auto simp: in_set_conv_nth)
    then have i': "i < length (entry (connectedSynapsesForPresynapticCell_m c) a)"
      using presynListsOK_len[OF ok, of a] by simp
    note n = presynListsOK_nth[OF ok i']
    have "live c (entry (connectedSynapsesForPresynapticCell_m c) a ! i)" using n(2) by simp
    from wf_live_facts(2)[OF wf this] show ?thesis using n(5) i(2) by simp
  qed
  then have "\<forall>a \<in> set A. \<forall>sg \<in> set (entry ?m a). sg < length ?v0" by blast
  from activityLoop_ok[OF this] obtain v where v: "activityLoop ?m ?v0 A = Inr v"
    "length v = length ?v0"
    "\<forall>s < length ?v0. v ! s = ?v0 ! s + sum_list (map (\<lambda>a. count_list (entry ?m a) s) A)"
    by blast
  have "v ! s = length (filter (\<lambda>y. isConnected c y \<and>
                                  presynapticCell (synapses_m c ! y) \<in> set A)
                        (synapses (segments_m c ! s)))" if "s < length (segments_m c)" for s
    using v(3) that connected_count_for_cells[OF wf that d] by simp
  then show ?thesis
    using v(1,2) by (simp add: computeActivity_def bindE_def Let_def)
qed

lemma less2: "(y::nat) < 2 \<longleftrightarrow> y = 0 \<or> y = 1" by auto
lemma less1: "(y::nat) < Suc 0 \<longleftrightarrow> y = 0" by auto

lemma wellFormed_connTwo: "wellFormed connTwo"
  unfolding wellFormed_def
proof (intro conjI)
  show "wfCells connTwo"
    by (auto simp: wfCells_def connTwo_def liveSegment_def less2 nth_Cons')
  show "wfSegments connTwo"
    by (auto simp: wfSegments_def connTwo_def live_def isConnected_def Epsilon_def less2 nth_Cons')
  show "wfPermanences connTwo"
    by (auto simp: wfPermanences_def connTwo_def live_def Epsilon_def minPermanence_def
        maxPermanence_def Synapse_max_def)
  show "wfPresyn connTwo"
    by (auto simp: wfPresyn_def presynListsOK_def connTwo_def live_def isConnected_def
        Epsilon_def entry_def nth_Cons' split: if_splits)
qed

lemma length_filter_card:
  "distinct xs \<Longrightarrow> length (filter P xs) = card {y \<in> set xs. P y}"
  by (simp add: distinct_length_filter Int_def conj_commute)

text \<open>
  C3: in a state that satisfies the invariants of the data model, for a duplicate-free
  list \<open>A\<close> of presynaptic cells, \<open>computeActivity\<close> returns a vector with one entry per
  segment, and entry \<open>s\<close> is the number of synapses on segment \<open>s\<close> whose permanence is at
  least the stored connected threshold and whose presynaptic cell is in \<open>A\<close>.
\<close>

theorem C3_computeActivity_counts:
  assumes "wellFormed c" "distinct A"
  shows "\<exists>v c'. computeActivity c A learn = Inr (v, c') \<and>
           length v = length (segments_m c) \<and>
           (\<forall>s < length (segments_m c).
              v ! s = card {y \<in> set (synapses (segments_m c ! s)).
                           permanence (synapses_m c ! y) \<ge> connectedThreshold_m c \<and>
                           presynapticCell (synapses_m c ! y) \<in> set A})"
proof -
  from computeActivity_counts[OF assms, of learn] obtain v c' where
    v: "computeActivity c A learn = Inr (v, c')" "length v = length (segments_m c)"
      "\<forall>s < length (segments_m c).
              v ! s = length (filter (\<lambda>y. isConnected c y \<and>
                                  presynapticCell (synapses_m c ! y) \<in> set A)
                        (synapses (segments_m c ! s)))"
    by blast
  have "v ! s = card {y \<in> set (synapses (segments_m c ! s)).
                           permanence (synapses_m c ! y) \<ge> connectedThreshold_m c \<and>
                           presynapticCell (synapses_m c ! y) \<in> set A}"
    if "s < length (segments_m c)" for s
    using v(3) that wf_segment_facts(1)[OF assms(1) that]
    by (simp add: length_filter_card isConnected_def)
  then show ?thesis using v(1,2) by blast
qed

theorem C3_computeActivity_witness:
  "wellFormed connTwo \<and> distinct [0::nat] \<and>
   computeActivity connTwo [0] False = Inr ([0, 1], connTwo) \<and>
   (\<exists>v c'. computeActivity connTwo [0] False = Inr (v, c') \<and>
           length v = length (segments_m connTwo) \<and>
           (\<forall>s < length (segments_m connTwo).
              v ! s = card {y \<in> set (synapses (segments_m connTwo ! s)).
                           permanence (synapses_m connTwo ! y) \<ge> connectedThreshold_m connTwo \<and>
                           presynapticCell (synapses_m connTwo ! y) \<in> set [0]}))"
proof -
  have "computeActivity connTwo [0] False = Inr ([0, 1], connTwo)"
    by (simp add: computeActivity_def connTwo_def bindE_def)
  then show ?thesis
    using C3_computeActivity_counts [OF wellFormed_connTwo, of "[0]" False] wellFormed_connTwo
    by simp
qed

text \<open>
  C1: for a pooler whose connections satisfy the invariants and a duplicate-free sparse
  input, the overlap computation inside \<open>compute\<close> succeeds; the overlap of column \<open>col\<close>
  (the entry of the segment with handle \<open>col\<close>, which the pooler creates for column
  \<open>col\<close>) is the number of connected synapses of that segment whose presynaptic input bit
  is active; and whenever \<open>compute\<close> returns, it returns this vector.
\<close>

theorem C1_compute_overlaps:
  assumes "wellFormed (connections_m sp)" "distinct inputSparse"
  shows "\<exists>overlaps conn.
           computeActivityWeighted (connections_m (updateBookeepingVars_m sp learn))
             inputSparse inputWeights learn = Inr (overlaps, conn) \<and>
           length overlaps = length (segments_m (connections_m sp)) \<and>
           (\<forall>col < length (segments_m (connections_m sp)).
              overlaps ! col
                = card {y \<in> set (synapses (segments_m (connections_m sp) ! col)).
                          permanence (synapses_m (connections_m sp) ! y)
                            \<ge> connectedThreshold_m (connections_m sp) \<and>
                          presynapticCell (synapses_m (connections_m sp) ! y)
                            \<in> set inputSparse}) \<and>
           (\<forall>r. compute M ne ss sp inputSparse inputWeights learn = Inr r
                  \<longrightarrow> fst r = overlaps)"
proof -
  let ?c = "connections_m sp"
  have cc: "connections_m (updateBookeepingVars_m sp learn) = ?c"
    by (simp add: updateBookeepingVars_m_def Let_def)
  from computeActivity_counts[OF assms, of learn] obtain v c' where
    v: "computeActivity ?c inputSparse learn = Inr (v, c')" "length v = length (segments_m ?c)"
      "\<forall>s < length (segments_m ?c).
              v ! s = length (filter (\<lambda>y. isConnected ?c y \<and>
                                  presynapticCell (synapses_m ?c ! y) \<in> set inputSparse)
                        (synapses (segments_m ?c ! s)))"
    by blast
  have "v ! s = card {y \<in> set (synapses (segments_m ?c ! s)).
                           permanence (synapses_m ?c ! y) \<ge> connectedThreshold_m ?c \<and>
                           presynapticCell (synapses_m ?c ! y) \<in> set inputSparse}"
    if "s < length (segments_m ?c)" for s
    using v(3) that wf_segment_facts(1)[OF assms(1) that]
    by (simp add: length_filter_card isConnected_def)
  moreover have "fst r = v" if "compute M ne ss sp inputSparse inputWeights learn = Inr r" for r
    using that v(1)
    by (auto simp: compute_def computeActivityWeighted_def cc bindE_def Let_def
        split: sum.splits)
  ultimately show ?thesis
    using v(1,2) by (simp add: computeActivityWeighted_def cc)
qed

section \<open>Creating a synapse that exists\<close>

lemma findExisting_found:
  assumes "\<forall>x \<in> set xs. x < length syns"
    and "distinct (map (\<lambda>x. presynapticCell (syns ! x)) xs)"
    and "y \<in> set xs" "presynapticCell (syns ! y) = pc"
  shows "findExisting syns pc xs = Inr (Some y)"
  using assms
proof (induction xs)
  case Nil
  then show ?case by simp
next
  case (Cons x xs)
  show ?case
  proof (cases "x = y")
    case True
    then show ?thesis using Cons.prems by simp
  next
    case False
    then have "y \<in> set xs" using Cons.prems by simp
    then have "presynapticCell (syns ! x) \<noteq> pc" using Cons.prems by force
    then show ?thesis using Cons False by simp
  qed
qed

lemma findExisting_none:
  assumes "\<forall>x \<in> set xs. x < length syns"
    and "\<forall>x \<in> set xs. presynapticCell (syns ! x) \<noteq> pc"
  shows "findExisting syns pc xs = Inr None"
  using assms by (induction xs) auto

lemma createSynapse_existing:
  assumes wf: "wellFormed c" and sg: "sg < length (segments_m c)"
    and y: "y \<in> set (synapses (segments_m c ! sg))"
    and pc: "presynapticCell (synapses_m c ! y) = pc"
  shows "\<exists>c'. createSynapse c sg pc p = Inr (y, c') \<and> wellFormed c' \<and>
           permanenceWritten c y (max (permanence (synapses_m c ! y)) (min p maxPermanence)) c' \<and>
           (p \<le> permanence (synapses_m c ! y) \<longrightarrow> c' = c)"
proof -
  note sf = wf_segment_facts[OF wf sg]
  have lv: "live c y" using sf(2) y by blast
  have rng: "\<forall>x \<in> set (synapses (segments_m c ! sg)). x < length (synapses_m c)"
    using sf(2) by (auto simp: live_def)
  have d: "distinct (map (\<lambda>x. presynapticCell (synapses_m c ! x)) (synapses (segments_m c ! sg)))"
    using wf sg by (simp add: wellFormed_def wfSegments_def)
  have fe: "findExisting (synapses_m c) pc (synapsesForSegment c sg) = Inr (Some y)"
    unfolding synapsesForSegment_def by (rule findExisting_found[OF rng d y pc])
  have range: "minPermanence \<le> permanence (synapses_m c ! y)"
    "permanence (synapses_m c ! y) \<le> maxPermanence"
    using wf lv by (auto simp: wellFormed_def wfPermanences_def)
  show ?thesis
  proof (cases "p > permanence (synapses_m c ! y)")
    case True
    from updateSynapsePermanence_wf[OF wf lv, of p] obtain c' where
      c': "updateSynapsePermanence c y p = Inr c'" "wellFormed c'"
        "permanenceWritten c y (clampPermanence p) c'"
      by blast
    have "clampPermanence p = max (permanence (synapses_m c ! y)) (min p maxPermanence)"
      using True range by (auto simp: clampPermanence_def)
    then show ?thesis
      using True c' sg fe by (simp add: createSynapse_def bindE_def)
  next
    case False
    have "permanenceWritten c y (permanence (synapses_m c ! y)) c"
      by (simp add: permanenceWritten_def sameShape_def)
    moreover have "max (permanence (synapses_m c ! y)) (min p maxPermanence)
        = permanence (synapses_m c ! y)"
      using False by auto
    ultimately show ?thesis
      using False wf sg fe by (simp add: createSynapse_def bindE_def)
  qed
qed

text \<open>
  C2: a synapse \<open>y\<close> from the presynaptic cell already exists on the segment of a
  well-formed state, and the requested permanence is a permanence, that is, not above
  \<open>maxPermanence\<close>. Then \<open>createSynapse\<close> returns the handle \<open>y\<close>; both arrays, both
  free-lists and every synapse list keep their contents, so no synapse is created; the
  permanence of \<open>y\<close> becomes the maximum of the existing and the requested permanence and
  no other permanence changes; and when the requested permanence is at most the existing
  one the state, with it \<open>numConnected\<close>, is unchanged.
\<close>

theorem C2_createSynapse_existing:
  assumes "wellFormed c" "sg < length (segments_m c)"
    and "y \<in> set (synapses (segments_m c ! sg))"
    and "presynapticCell (synapses_m c ! y) = pc"
    and "p \<le> maxPermanence"
  shows "\<exists>c'. createSynapse c sg pc p = Inr (y, c') \<and> wellFormed c' \<and>
           permanenceWritten c y (max (permanence (synapses_m c ! y)) p) c' \<and>
           length (synapses_m c') = length (synapses_m c) \<and>
           synapses (segments_m c' ! sg) = synapses (segments_m c ! sg) \<and>
           (p \<le> permanence (synapses_m c ! y) \<longrightarrow> c' = c)"
proof -
  have m: "min p maxPermanence = p" using assms(5) by simp
  from createSynapse_existing[OF assms(1-4), of p] obtain c' where
    c': "createSynapse c sg pc p = Inr (y, c')" "wellFormed c'"
      "permanenceWritten c y (max (permanence (synapses_m c ! y)) p) c'"
      "p \<le> permanence (synapses_m c ! y) \<longrightarrow> c' = c"
    unfolding m by blast
  have "length (synapses_m c') = length (synapses_m c)"
    "synapses (segments_m c' ! sg) = synapses (segments_m c ! sg)"
    using c'(3) by (simp_all add: permanenceWritten_def sameShape_def)
  then show ?thesis using c' by blast
qed

theorem C2_createSynapse_existing_witness:
  "wellFormed connTwo \<and> 1 < length (segments_m connTwo)
   \<and> 0 \<in> set (synapses (segments_m connTwo ! 1))
   \<and> presynapticCell (synapses_m connTwo ! 0) = 0
   \<and> 7 / 10 \<le> maxPermanence
   \<and> (\<exists>c'. createSynapse connTwo 1 0 (7 / 10) = Inr (0, c')
          \<and> permanence (synapses_m c' ! 0) = 7 / 10
          \<and> length (synapses_m c') = length (synapses_m connTwo))"
proof -
  have h: "1 < length (segments_m connTwo)" "0 \<in> set (synapses (segments_m connTwo ! 1))"
    "presynapticCell (synapses_m connTwo ! 0) = 0"
    by (simp_all add: connTwo_def)
  have p: "max (permanence (synapses_m connTwo ! 0)) (7 / 10) = 7 / 10"
    by (simp add: connTwo_def)
  have q: "7 / 10 \<le> maxPermanence" by (simp add: maxPermanence_def)
  from C2_createSynapse_existing [OF wellFormed_connTwo h q]
  obtain c' where c': "createSynapse connTwo 1 0 (7 / 10) = Inr (0, c')"
    "permanenceWritten connTwo 0 (7 / 10) c'"
    unfolding p by blast
  have "permanence (synapses_m c' ! 0) = 7 / 10"
    "length (synapses_m c') = length (synapses_m connTwo)"
    using c'(2) by (simp_all add: permanenceWritten_def sameShape_def)
  then show ?thesis using c'(1) h q wellFormed_connTwo by blast
qed

section \<open>Properties of the inhibition\<close>

lemma inhibitColumns_m_radius:
  assumes "\<not> globalInhibition_m sp" "columnDimensions_m sp \<noteq> []"
    "inhibitionRadius_m sp > Max (set (columnDimensions_m sp))"
  shows "inhibitColumns_m M ne ss sp ov
           = inhibitColumnsGlobal_m ne ss sp ov (inhibitionDensity M sp)"
  using assms by (simp add: inhibitColumns_m_def)

text \<open>
  C10: with global inhibition switched off, a cached inhibition radius above the largest
  column dimension makes \<open>compute\<close> select the active columns with the global procedure:
  the call of \<open>inhibitColumns_m\<close> inside \<open>compute\<close> is a call of
  \<open>inhibitColumnsGlobal_m\<close> with the computed density.
\<close>

theorem C10_large_radius_uses_global_inhibition:
  assumes "\<not> globalInhibition_m sp" "columnDimensions_m sp \<noteq> []"
    "inhibitionRadius_m sp > Max (set (columnDimensions_m sp))"
  shows "compute M ne ss sp inputSparse inputWeights learn =
     (let sp1 = updateBookeepingVars_m sp learn in
      bindE (computeActivityWeighted (connections_m sp1) inputSparse inputWeights learn)
        (\<lambda>(overlaps, conn).
           bindE (boostOverlaps_m sp1 overlaps)
             (\<lambda>boosted.
                let sp2 = sp1\<lparr> connections_m := conn, boostedOverlaps_m := boosted \<rparr> in
                bindE (inhibitColumnsGlobal_m ne ss sp2 boosted (inhibitionDensity M sp2))
                  (\<lambda>activeVector. Inr (overlaps, sort activeVector, sp2)))))"
proof -
  have "inhibitColumns_m M ne ss
          (updateBookeepingVars_m sp learn\<lparr> connections_m := conn, boostedOverlaps_m := b \<rparr>) ov
        = inhibitColumnsGlobal_m ne ss
          (updateBookeepingVars_m sp learn\<lparr> connections_m := conn, boostedOverlaps_m := b \<rparr>) ov
          (inhibitionDensity M
             (updateBookeepingVars_m sp learn\<lparr> connections_m := conn, boostedOverlaps_m := b \<rparr>))"
    for conn b ov
    using assms
    by (intro inhibitColumns_m_radius) (simp_all add: updateBookeepingVars_m_def Let_def)
  then show ?thesis
    by (simp add: compute_def Let_def)
qed

lemmas float_eval = fmul_def fadd_def fsub_def fdiv_def fl32_numeral fl32_half

lemmas pooler_eval = updateBookeepingVars_m_def
        computeActivityWeighted_def computeActivity_def bindE_def boostOverlaps_m_def
        Epsilon_def inhibitColumns_m_def inhibitColumnsGlobal_m_def inhibitionDensity_def
        getAreaND_m_def nthElementBy_def sortBy_def compare_def popWhile_def Let_def float_eval

lemma upt3: "[0 ..< 3] = [0, 1, 2]" by (simp add: upt_rec)
lemma upt2: "[0 ..< 2] = [0, 1]" by (simp add: upt_rec)

theorem C10_large_radius_witness:
  "\<not> globalInhibition_m poolerTwo \<and> columnDimensions_m poolerTwo \<noteq> []
   \<and> inhibitionRadius_m poolerTwo > Max (set (columnDimensions_m poolerTwo))
   \<and> compute (1 / 2) nthElementBy sortBy poolerTwo [0] [1] False
       = Inr ([0, 1], [1], poolerTwo\<lparr> iterationNum_m := 1, boostedOverlaps_m := [0, 1] \<rparr>)"
  using C10_large_radius_uses_global_inhibition
          [of poolerTwo "1 / 2" nthElementBy sortBy "[0]" "[1]" False]
  by (simp add: poolerTwo_def connTwo_def upt2 pooler_eval)

lemma popWhile_snoc: "popWhile P (xs @ [x]) = (if P x then popWhile P xs else xs @ [x])"
  by (simp add: popWhile_def)

lemma popWhile_take:
  "\<exists>m \<le> length xs. popWhile P xs = take m xs \<and> (\<forall>k. m \<le> k \<and> k < length xs \<longrightarrow> P (xs ! k))
      \<and> (0 < m \<longrightarrow> \<not> P (xs ! (m - 1)))"
proof (induction xs rule: rev_induct)
  case Nil
  then show ?case by (simp add: popWhile_def)
next
  case (snoc x xs)
  show ?case
  proof (cases "P x")
    case True
    from snoc obtain m where m: "m \<le> length xs" "popWhile P xs = take m xs"
      "\<forall>k. m \<le> k \<and> k < length xs \<longrightarrow> P (xs ! k)" "0 < m \<longrightarrow> \<not> P (xs ! (m - 1))"
      by blast
    have "\<forall>k. m \<le> k \<and> k < length (xs @ [x]) \<longrightarrow> P ((xs @ [x]) ! k)"
      using m(3) True by (auto simp: nth_append less_Suc_eq)
    moreover have "0 < m \<longrightarrow> \<not> P ((xs @ [x]) ! (m - 1))"
      using m(1,4) by (auto simp: nth_append)
    ultimately show ?thesis
      using m(1,2) True by (intro exI[of _ m]) (simp add: popWhile_snoc)
  next
    case False
    then show ?thesis
      by (intro exI[of _ "Suc (length xs)"]) (auto simp: popWhile_snoc)
  qed
qed

lemma compare_overlap_le: "\<not> compare ov x y \<Longrightarrow> ov ! x \<le> ov ! y"
  by (auto simp: compare_def split: if_splits)

lemma popWhile_sorted_set:
  assumes sorted: "\<forall>i < length ws. \<forall>j < length ws. i < j \<longrightarrow> \<not> compare ov (ws ! j) (ws ! i)"
  shows "set (popWhile (\<lambda>c. ov ! c < t) ws) = {c \<in> set ws. t \<le> ov ! c}"
proof -
  obtain m where m: "m \<le> length ws" "popWhile (\<lambda>c. ov ! c < t) ws = take m ws"
      "\<forall>k. m \<le> k \<and> k < length ws \<longrightarrow> ov ! (ws ! k) < t" "0 < m \<longrightarrow> \<not> ov ! (ws ! (m - 1)) < t"
    using popWhile_take[of ws "\<lambda>c. ov ! c < t"] by blast
  have "t \<le> ov ! (ws ! i)" if "i < m" for i
  proof (cases "i = m - 1")
    case True
    then show ?thesis using m(4) that by auto
  next
    case False
    then have "i < m - 1" "m - 1 < length ws" using that m(1) by auto
    then have "ov ! (ws ! (m - 1)) \<le> ov ! (ws ! i)"
      using sorted compare_overlap_le by (metis less_trans)
    then show ?thesis using m(4) that by auto
  qed
  moreover have "k < m" if "k < length ws" "t \<le> ov ! (ws ! k)" for k
    using m(3) that by (meson not_le)
  ultimately show ?thesis
    using m(1,2) by (auto simp: set_conv_nth in_set_conv_nth) (metis min.absorb2 nth_take length_take)+
qed


lemma popWhile_prefix_mem:
  assumes "ws ! k \<in> set (popWhile P ws)" "distinct ws" "k < length ws" "i < k"
  shows "ws ! i \<in> set (popWhile P ws)"
proof -
  obtain m where m: "m \<le> length ws" "popWhile P ws = take m ws"
    using popWhile_take[of ws P] by blast
  from assms(1) m obtain l where l: "l < m" "ws ! l = ws ! k"
    by (auto simp: in_set_conv_nth)
  then have "l = k" using assms(2,3) m(1) by (simp add: nth_eq_iff_index_eq)
  then have "i < m" using l assms(4) by simp
  then show ?thesis using m assms by (auto simp: in_set_conv_nth intro!: exI[of _ i])
qed

lemma global_winners:
  assumes np: "nth_element_post (compare ov) nd [0 ..< n] part"
    and sp: "sort_post (compare ov) (take nd part) ws"
  shows "distinct ws" "set ws = set (take nd part)" "set ws \<subseteq> {0 ..< n}" "length ws = min nd n"
proof -
  have mp: "mset part = mset [0 ..< n]" using np by (simp add: nth_element_post_def)
  then have dp: "distinct part" by (metis distinct_upt mset_eq_imp_distinct_iff)
  have lp: "length part = n" using mp by (metis length_upt mset_eq_length minus_nat.diff_0)
  have mw: "mset ws = mset (take nd part)" using sp by (simp add: sort_post_def)
  show "distinct ws" using mw dp by (metis distinct_take mset_eq_imp_distinct_iff)
  show "set ws = set (take nd part)" using mw by (metis set_mset_mset)
  then show "set ws \<subseteq> {0 ..< n}" using mp
    by (metis atLeastLessThan_upt set_mset_mset set_take_subset)
  show "length ws = min nd n" using mw lp by (metis length_take mset_eq_length min.commute)
qed

lemma global_tie:
  assumes np: "nth_element_post (compare ov) nd [0 ..< n] part"
    and sp: "sort_post (compare ov) (take nd part) ws"
    and ab: "a < b" "b < n" "ov ! a = ov ! b"
    and a: "a \<in> set (popWhile P ws)"
  shows "b \<in> set (popWhile P ws)"
proof -
  have mp: "mset part = mset [0 ..< n]" using np by (simp add: nth_element_post_def)
  have lp: "length part = n" using mp by (metis length_upt mset_eq_length minus_nat.diff_0)
  have cmp: "compare ov b a" using ab by (simp add: compare_def)
  note w = global_winners[OF np sp]
  have "set (popWhile P ws) \<subseteq> set ws"
    using popWhile_take[of ws P] by (metis set_take_subset)
  then have aw: "a \<in> set ws" using a by blast
  then obtain i where i: "i < nd" "i < n" "part ! i = a"
    using w(2) lp by (auto simp: in_set_conv_nth)
  have "b \<in> set part" using mp ab(2) by (metis atLeastLessThan_iff atLeastLessThan_upt le0 set_mset_mset)
  then obtain j where j: "j < n" "part ! j = b" using lp by (auto simp: in_set_conv_nth)
  have "j < nd"
  proof (rule ccontr)
    assume "\<not> j < nd"
    then have "i \<le> nd \<and> nd \<le> j" using i by simp
    moreover have "\<forall>i<n. \<forall>j<n. i \<le> nd \<and> nd \<le> j \<longrightarrow> \<not> compare ov (part ! j) (part ! i)"
      using np lp by (simp add: nth_element_post_def)
    ultimately have "\<not> compare ov (part ! j) (part ! i)"
      using i(2) j(1) by blast
    then show False using cmp i j by simp
  qed
  then have "b \<in> set ws" using w(2) j lp by (auto simp: in_set_conv_nth intro!: exI[of _ j])
  then obtain k where k: "k < length ws" "ws ! k = b" by (auto simp: in_set_conv_nth)
  from aw obtain l where l: "l < length ws" "ws ! l = a" by (auto simp: in_set_conv_nth)
  have "k \<noteq> l" using k l ab by auto
  moreover have "\<not> l < k" using sp k l cmp by (auto simp: sort_post_def)
  ultimately have "k < l" by simp
  then show ?thesis using popWhile_prefix_mem[of ws l P k] a l k w(1) by simp
qed

text \<open>
  C6, counterexample. In \<open>poolerBoost\<close> input 0 gives column 1 the raw overlap 1, below
  the stimulus threshold 2; its boosted overlap is 3 and \<open>compute\<close> makes the column
  active.
\<close>

theorem C6_raw_overlap_counterexample:
  "compute (1 / 2) nthElementBy sortBy poolerBoost [0] [1] False
     = Inr ([0, 1], [1], poolerBoost\<lparr> iterationNum_m := 1, boostedOverlaps_m := [0, 3] \<rparr>)
   \<and> stimulusThreshold_m poolerBoost = 2"
  by (simp add: poolerBoost_def connTwo_def compute_def upt2 pooler_eval)

text \<open>
  C5, counterexample. Two columns tie at overlap 1 and one column is wanted: the global
  inhibition admits column 1, not column 0.
\<close>

theorem C5_lower_index_counterexample:
  "inhibitColumnsGlobal_m nthElementBy sortBy poolerTwo [1, 1] (1 / 2) = Inr [1]"
  by (simp add: poolerTwo_def upt2 pooler_eval)

text \<open>The float computations of the scenario with 200 columns and 10 wanted columns.\<close>

lemma fl32_twentieth: "fl32 (1 / 20) = 13421773 / 2 ^ 28"
proof -
  have "fl32 (1 / 20) = of_int (roundHalfEven ((1 / 20) / 2 powi (- 5 - 23))) * 2 powi (- 5 - 23)"
    by (rule fl32_eval) (simp_all add: power_int_minus)
  also have "\<dots> = 13421773 / 2 ^ 28"
    by (simp add: roundHalfEven_def power_int_minus)
  finally show ?thesis .
qed

lemma fl32_ten: "fl32 (13421773 / 2 ^ 28 * 200) = 10"
proof -
  have "fl32 (13421773 / 2 ^ 28 * 200)
      = of_int (roundHalfEven ((13421773 / 2 ^ 28 * 200) / 2 powi (3 - 23))) * 2 powi (3 - 23)"
    by (rule fl32_eval) (simp_all add: power_int_minus)
  also have "\<dots> = 10"
    by (simp add: roundHalfEven_def power_int_minus)
  finally show ?thesis .
qed

lemma scenario_numDesired:
  assumes "numColumns_m sp = 200" "columnDimensions_m sp = [200]" "inhibitionRadius_m sp = 200"
    "numActiveColumnsPerInhArea_m sp = 10" "fdiv 10 200 \<le> M"
  shows "inhibitionDensity M sp = 13421773 / 2 ^ 28"
    and "fmul (inhibitionDensity M sp) (fl32 (real (numColumns_m sp))) = 10"
    and "nat \<lfloor>fmul (inhibitionDensity M sp) (fl32 (real (numColumns_m sp)))\<rfloor> = 10"
proof -
  have a: "getAreaND_m [200] (fl32 200) = 200"
    by (simp add: getAreaND_m_def float_eval)
  have q: "fdiv 10 200 = 13421773 / 2 ^ 28"
    using fl32_twentieth by (simp add: fdiv_def)
  have "fdiv (fl32 10) (fl32 200) = fdiv 10 200"
    by (simp add: fl32_numeral)
  then have "min (fdiv (fl32 10) (fl32 200)) M = 13421773 / 2 ^ 28"
    using assms(5) unfolding q by simp
  then show d: "inhibitionDensity M sp = 13421773 / 2 ^ 28"
    using assms(1-4) a by (simp add: inhibitionDensity_def)
  show e: "fmul (inhibitionDensity M sp) (fl32 (real (numColumns_m sp))) = 10"
    unfolding d using assms(1) fl32_ten by (simp add: fmul_def fl32_numeral)
  show "nat \<lfloor>fmul (inhibitionDensity M sp) (fl32 (real (numColumns_m sp)))\<rfloor> = 10"
    unfolding e by simp
qed

lemma popWhile_none: "\<forall>x \<in> set xs. \<not> P x \<Longrightarrow> popWhile P xs = xs"
proof (induction xs rule: rev_induct)
  case Nil
  then show ?case by (simp add: popWhile_def)
next
  case (snoc x xs)
  then show ?case by (simp add: popWhile_snoc)
qed

lemma global_result:
  assumes np: "nth_element_post (compare ov) nd [0 ..< n] part"
    and sp: "sort_post (compare ov) (take nd part) ws"
    and ok: "0 < nd" "nd \<le> n"
  shows "set (popWhile (\<lambda>c. ov ! c < t) ws) = {c \<in> set (take nd part). t \<le> ov ! c}
     \<and> distinct (popWhile (\<lambda>c. ov ! c < t) ws)
     \<and> length (take nd part) = nd
     \<and> (\<forall>a \<in> set (take nd part). \<forall>b < n. b \<notin> set (take nd part) \<longrightarrow> compare ov a b)
     \<and> (length (popWhile (\<lambda>c. ov ! c < t) ws) = nd \<or> (\<exists>c \<in> set (take nd part). ov ! c < t))"
proof -
  let ?P = "\<lambda>column. ov ! column < t"
  let ?act = "popWhile ?P ws"
  note w = global_winners[OF np sp]
  have mp: "mset part = mset [0 ..< n]" using np by (simp add: nth_element_post_def)
  have lp: "length part = n" using mp by (metis length_upt mset_eq_length minus_nat.diff_0)
  have dp: "distinct part" using mp by (metis distinct_upt mset_eq_imp_distinct_iff)
  have sorted: "\<forall>i < length ws. \<forall>j < length ws. i < j \<longrightarrow> \<not> compare ov (ws ! j) (ws ! i)"
    using sp by (simp add: sort_post_def)
  have 1: "set ?act = {c \<in> set (take nd part). t \<le> ov ! c}"
    unfolding popWhile_sorted_set[OF sorted] w(2) ..
  obtain m where m: "m \<le> length ws" "popWhile ?P ws = take m ws"
    using popWhile_take[of ws ?P] by blast
  have 2: "distinct ?act" unfolding m(2) using w(1) by simp
  have 3: "length (take nd part) = nd" using ok lp by simp
  have 4: "compare ov a b" if a: "a \<in> set (take nd part)" and b: "b < n" "b \<notin> set (take nd part)" for a b
  proof -
    from a obtain i where i: "i < nd" "i < n" "part ! i = a"
      using lp by (auto simp: in_set_conv_nth)
    have "b \<in> set part" using mp b(1)
      by (metis atLeastLessThan_iff atLeastLessThan_upt le0 set_mset_mset)
    then obtain j where j: "j < n" "part ! j = b" using lp by (auto simp: in_set_conv_nth)
    have "\<not> j < nd" using b(2) j lp by (auto simp: in_set_conv_nth)
    then have "i \<le> nd \<and> nd \<le> j" using i by simp
    moreover have "\<forall>i<n. \<forall>j<n. i \<le> nd \<and> nd \<le> j \<longrightarrow> \<not> compare ov (part ! j) (part ! i)"
      using np lp by (simp add: nth_element_post_def)
    ultimately have "\<not> compare ov b a" using i j by blast
    moreover have "a \<noteq> b" using a b by auto
    ultimately show ?thesis by (auto simp: compare_def split: if_splits)
  qed
  have 5: "length ?act = nd \<or> (\<exists>c \<in> set (take nd part). ov ! c < t)"
  proof (cases "\<exists>c \<in> set (take nd part). ov ! c < t")
    case False
    then have "set ?act = set ws" using 1 w(2) by auto
    then have "length ?act = length ws" using 2 w(1) by (metis distinct_card)
    then show ?thesis using w(4) ok by simp
  qed simp
  show ?thesis using 1 2 3 4 5 by blast
qed

text \<open>
  C6, as the code has it. With global inhibition switched on, \<open>inhibitColumns_m\<close> wants
  \<open>nd\<close> columns: the float product of the density it computes and the column count,
  truncated. The threshold test reads the overlaps it is given, which \<open>compute\<close> passes as
  the boosted overlaps. For library functions that meet their postconditions: the first
  \<open>nd\<close> columns of the partitioned vector are \<open>nd\<close> columns ordered before every other
  column; the active set consists of exactly those of them whose given overlap is at least
  the stimulus threshold; so it has \<open>nd\<close> columns unless one of the selected columns is
  below the threshold. For 200 columns in one dimension, the inhibition radius 200 that
  global inhibition sets, 10 active columns per inhibition area and a cap
  \<^verbatim>\<open>MAX_LOCALAREADENSITY\<close> that is not below the float quotient of 10 and 200, \<open>nd\<close> is 10.
\<close>

theorem C6_global_threshold_on_boosted:
  fixes sp :: SpatialPooler and M :: real and ov :: "real list"
    and nth_element :: "(nat \<Rightarrow> nat \<Rightarrow> bool) \<Rightarrow> nat \<Rightarrow> nat list \<Rightarrow> nat list"
  defines "nd \<equiv> nat \<lfloor>fmul (inhibitionDensity M sp) (fl32 (real (numColumns_m sp)))\<rfloor>"
  defines "part \<equiv> nth_element (compare ov) nd [0 ..< numColumns_m sp]"
  assumes g: "globalInhibition_m sp"
    and np: "nth_element_post (compare ov) nd [0 ..< numColumns_m sp] part"
    and sp: "sort_post (compare ov) (take nd part) (std_sort (compare ov) (take nd part))"
    and res: "inhibitColumns_m M nth_element std_sort sp ov = Inr act"
  shows "set act = {c \<in> set (take nd part). fl32 (real (stimulusThreshold_m sp)) \<le> ov ! c}
     \<and> distinct act
     \<and> length (take nd part) = nd
     \<and> (\<forall>a \<in> set (take nd part). \<forall>b < numColumns_m sp. b \<notin> set (take nd part) \<longrightarrow> compare ov a b)
     \<and> (length act = nd \<or>
        (\<exists>c \<in> set (take nd part). ov ! c < fl32 (real (stimulusThreshold_m sp))))
     \<and> (numColumns_m sp = 200 \<and> columnDimensions_m sp = [200] \<and> inhibitionRadius_m sp = 200 \<and>
        numActiveColumnsPerInhArea_m sp = 10 \<and> fdiv 10 200 \<le> M \<longrightarrow> nd = 10)"
proof -
  have ok: "0 < nd" "nd \<le> numColumns_m sp"
    and act: "act = popWhile (\<lambda>column. ov ! column < fl32 (real (stimulusThreshold_m sp)))
                     (std_sort (compare ov) (take nd part))"
    using res g
    by (auto simp: inhibitColumns_m_def inhibitColumnsGlobal_m_def Let_def nd_def part_def
        split: if_splits)
  have "numColumns_m sp = 200 \<and> columnDimensions_m sp = [200] \<and> inhibitionRadius_m sp = 200 \<and>
        numActiveColumnsPerInhArea_m sp = 10 \<and> fdiv 10 200 \<le> M \<longrightarrow> nd = 10"
    unfolding nd_def using scenario_numDesired(3)[of sp M] by blast
  then show ?thesis
    using global_result[OF np sp ok, of "fl32 (real (stimulusThreshold_m sp))"]
    unfolding act by blast
qed

text \<open>
  C5, as the code has it. Of two columns with equal overlap the one with the higher index
  is preferred: whenever global inhibition admits the lower index, it admits the higher
  index too.
\<close>

theorem C5_tie_prefers_higher_index:
  assumes np: "nth_element_post (compare ov)
                 (nat \<lfloor>fmul density (fl32 (real (numColumns_m sp)))\<rfloor>)
                 [0 ..< numColumns_m sp]
                 (nth_element (compare ov) (nat \<lfloor>fmul density (fl32 (real (numColumns_m sp)))\<rfloor>)
                    [0 ..< numColumns_m sp])"
    and sp: "sort_post (compare ov)
               (take (nat \<lfloor>fmul density (fl32 (real (numColumns_m sp)))\<rfloor>)
                  (nth_element (compare ov)
                     (nat \<lfloor>fmul density (fl32 (real (numColumns_m sp)))\<rfloor>)
                     [0 ..< numColumns_m sp]))
               (std_sort (compare ov)
                  (take (nat \<lfloor>fmul density (fl32 (real (numColumns_m sp)))\<rfloor>)
                     (nth_element (compare ov)
                        (nat \<lfloor>fmul density (fl32 (real (numColumns_m sp)))\<rfloor>)
                        [0 ..< numColumns_m sp])))"
    and res: "inhibitColumnsGlobal_m nth_element std_sort sp ov density = Inr act"
    and ab: "a < b" "b < numColumns_m sp" "ov ! a = ov ! b"
    and a: "a \<in> set act"
  shows "b \<in> set act"
proof -
  have act: "act = popWhile (\<lambda>column. ov ! column < fl32 (real (stimulusThreshold_m sp)))
      (std_sort (compare ov)
                  (take (nat \<lfloor>fmul density (fl32 (real (numColumns_m sp)))\<rfloor>)
                     (nth_element (compare ov)
                        (nat \<lfloor>fmul density (fl32 (real (numColumns_m sp)))\<rfloor>)
                        [0 ..< numColumns_m sp])))"
    using res by (auto simp: inhibitColumnsGlobal_m_def Let_def split: if_splits)
  show ?thesis
    using global_tie[OF np sp ab] a unfolding act by blast
qed

theorem C5_tie_witness:
  "nth_element_post (compare [1, 1, 0]) 2 [0 ..< 3] (nthElementBy (compare [1, 1, 0]) 2 [0 ..< 3])
   \<and> sort_post (compare [1, 1, 0]) (take 2 (nthElementBy (compare [1, 1, 0]) 2 [0 ..< 3]))
        (sortBy (compare [1, 1, 0]) (take 2 (nthElementBy (compare [1, 1, 0]) 2 [0 ..< 3])))
   \<and> inhibitColumnsGlobal_m nthElementBy sortBy poolerThree [1, 1, 0] (2 / 3) = Inr [1, 0]
   \<and> (0::nat) < 1 \<and> 1 < numColumns_m poolerThree \<and> [1, 1, 0 :: real] ! 0 = [1, 1, 0] ! 1
   \<and> (0::nat) \<in> set [1, 0] \<and> (1::nat) \<in> set [1, 0]"
proof -
  have nd: "nat \<lfloor>fmul (2 / 3) (fl32 (real (numColumns_m poolerThree)))\<rfloor> = 2"
    by (simp add: poolerThree_def poolerTwo_def float_eval)
  have np: "nth_element_post (compare [1, 1, 0]) 2 [0 ..< 3] (nthElementBy (compare [1, 1, 0]) 2 [0 ..< 3])"
    by (simp add: upt3 nth_element_post_def nthElementBy_def sortBy_def compare_def less_Suc_eq numeral_3_eq_3 numeral_2_eq_2)
  have sp: "sort_post (compare [1, 1, 0]) (take 2 (nthElementBy (compare [1, 1, 0]) 2 [0 ..< 3]))
        (sortBy (compare [1, 1, 0]) (take 2 (nthElementBy (compare [1, 1, 0]) 2 [0 ..< 3])))"
    by (simp add: upt3 sort_post_def nthElementBy_def sortBy_def compare_def less_Suc_eq numeral_3_eq_3 numeral_2_eq_2)
  have res: "inhibitColumnsGlobal_m nthElementBy sortBy poolerThree [1, 1, 0] (2 / 3) = Inr [1, 0]"
    by (simp add: poolerThree_def poolerTwo_def upt3 pooler_eval)
  have n: "numColumns_m poolerThree = 3" by (simp add: poolerThree_def)
  have "(1::nat) \<in> set [1, 0]"
    using C5_tie_prefers_higher_index [of "[1, 1, 0]" "2 / 3" poolerThree nthElementBy sortBy "[1, 0]" 0 1]
      np sp res unfolding nd n by simp
  then show ?thesis using np sp res n by simp
qed

text \<open>
  With equal overlaps the comparator orders the columns by falling index, so the reversed
  index vector is partitioned and sorted.
\<close>

lemma compare_replicate:
  "a < n \<Longrightarrow> b < n \<Longrightarrow> compare (replicate n v) a b = (a > b)"
  by (simp add: compare_def)

lemma rev_upt_nth: "i < n \<Longrightarrow> rev [0 ..< n] ! i = n - 1 - i"
  by (simp add: rev_nth)

lemma nth_element_post_rev:
  "nth_element_post (compare (replicate n v)) nd [0 ..< n] (rev [0 ..< n])"
  unfolding nth_element_post_def
  by (auto simp: rev_upt_nth compare_replicate)

lemma sort_post_rev:
  "sort_post (compare (replicate n v)) (take nd (rev [0 ..< n])) (take nd (rev [0 ..< n]))"
  unfolding sort_post_def
  by (auto simp: rev_upt_nth compare_replicate)

theorem C6_global_threshold_witness:
  "globalInhibition_m poolerScenario \<and> fdiv 10 200 \<le> 1 / 2 \<and>
   nth_element_post (compare (replicate 200 1)) 10 [0 ..< 200] (rev [0 ..< 200]) \<and>
   sort_post (compare (replicate 200 1)) (take 10 (rev [0 ..< 200])) (take 10 (rev [0 ..< 200])) \<and>
   inhibitColumns_m (1 / 2) (\<lambda>cmp n xs. rev xs) (\<lambda>cmp xs. xs) poolerScenario (replicate 200 1)
     = Inr (take 10 (rev [0 ..< 200])) \<and>
   nat \<lfloor>fmul (inhibitionDensity (1 / 2) poolerScenario)
          (fl32 (real (numColumns_m poolerScenario)))\<rfloor> = 10 \<and>
   length (take 10 (rev [0 ..< 200])) = 10"
proof -
  have g: "globalInhibition_m poolerScenario" by (simp add: poolerScenario_def)
  have sc: "numColumns_m poolerScenario = 200" "columnDimensions_m poolerScenario = [200]"
    "inhibitionRadius_m poolerScenario = 200" "numActiveColumnsPerInhArea_m poolerScenario = 10"
    by (simp_all add: poolerScenario_def)
  have cap: "fdiv 10 200 \<le> 1 / 2"
    using fl32_twentieth by (simp add: fdiv_def)
  note nd = scenario_numDesired(3)[OF sc cap] and fm = scenario_numDesired(2)[OF sc cap]
  have fm': "fmul (inhibitionDensity (1 / 2) poolerScenario) (fl32 200) = 10"
    using fm by (simp add: sc)
  have np: "nth_element_post (compare (replicate 200 1)) 10 [0 ..< 200] (rev [0 ..< 200])"
    by (rule nth_element_post_rev)
  have sp: "sort_post (compare (replicate 200 1)) (take 10 (rev [0 ..< 200]))
      (take 10 (rev [0 ..< 200]))"
    by (rule sort_post_rev)
  have thr: "fl32 (real (stimulusThreshold_m poolerScenario)) = 1"
    by (simp add: poolerScenario_def)
  have "\<forall>x \<in> set (take 10 (rev [0 ..< 200])). \<not> replicate 200 (1::real) ! x < 1"
  proof
    fix x assume "x \<in> set (take 10 (rev [0 ..< 200]))"
    then have "x \<in> set (rev [0 ..< 200])" by (rule in_set_takeD)
    then have "x < 200" by simp
    then show "\<not> replicate 200 (1::real) ! x < 1" by simp
  qed
  then have pw: "popWhile (\<lambda>column. replicate 200 (1::real) ! column < 1) (take 10 (rev [0 ..< 200]))
      = take 10 (rev [0 ..< 200])"
    by (rule popWhile_none)
  have res: "inhibitColumns_m (1 / 2) (\<lambda>cmp n xs. rev xs) (\<lambda>cmp xs. xs) poolerScenario
      (replicate 200 1) = Inr (take 10 (rev [0 ..< 200]))"
    using g pw
    by (simp add: inhibitColumns_m_def inhibitColumnsGlobal_m_def Let_def thr fm' sc)
  let ?nd = "nat \<lfloor>fmul (inhibitionDensity (1 / 2) poolerScenario)
          (fl32 (real (numColumns_m poolerScenario)))\<rfloor>"
  have np0: "nth_element_post (compare (replicate 200 1)) ?nd [0 ..< numColumns_m poolerScenario]
      (rev [0 ..< numColumns_m poolerScenario])"
    unfolding nd unfolding sc by (rule np)
  have sp0: "sort_post (compare (replicate 200 1)) (take ?nd (rev [0 ..< numColumns_m poolerScenario]))
      (take ?nd (rev [0 ..< numColumns_m poolerScenario]))"
    unfolding nd unfolding sc by (rule sp)
  note T = C6_global_threshold_on_boosted [where sp = poolerScenario and M = "1 / 2"
      and ov = "replicate 200 1" and nth_element = "\<lambda>cmp n xs. rev xs"
      and std_sort = "\<lambda>cmp xs. xs" and act = "take 10 (rev [0 ..< 200])", OF g np0 sp0 res]
  from T have "numColumns_m poolerScenario = 200 \<and> columnDimensions_m poolerScenario = [200] \<and>
      inhibitionRadius_m poolerScenario = 200 \<and>
      numActiveColumnsPerInhArea_m poolerScenario = 10 \<and> fdiv 10 200 \<le> 1 / 2 \<longrightarrow> ?nd = 10"
    by blast
  with sc cap have "?nd = 10" by blast
  moreover have "length (take 10 (rev [0 ..< 200])) = 10" by simp
  ultimately show ?thesis using g cap np sp res by simp
qed

theorem C1_compute_overlaps_witness:
  "wellFormed (connections_m poolerTwo) \<and> distinct [0::nat] \<and>
   compute (1 / 2) nthElementBy sortBy poolerTwo [0] [1] False
     = Inr ([0, 1], [1], poolerTwo\<lparr> iterationNum_m := 1, boostedOverlaps_m := [0, 1] \<rparr>) \<and>
   (\<exists>overlaps conn.
       computeActivityWeighted (connections_m (updateBookeepingVars_m poolerTwo False))
         [0] [1] False = Inr (overlaps, conn) \<and>
       (\<forall>r. compute (1 / 2) nthElementBy sortBy poolerTwo [0] [1] False = Inr r
              \<longrightarrow> fst r = overlaps))"
proof -
  have c: "connections_m poolerTwo = connTwo" by (simp add: poolerTwo_def)
  have w: "wellFormed (connections_m poolerTwo)" unfolding c by (rule wellFormed_connTwo)
  have r: "compute (1 / 2) nthElementBy sortBy poolerTwo [0] [1] False
     = Inr ([0, 1], [1], poolerTwo\<lparr> iterationNum_m := 1, boostedOverlaps_m := [0, 1] \<rparr>)"
    by (simp add: compute_def poolerTwo_def connTwo_def upt2 pooler_eval)
  have d: "distinct [0::nat]" by simp
  show ?thesis
    using C1_compute_overlaps [OF w d, of False "[1]" "1 / 2" nthElementBy sortBy] w r
    by auto
qed


section \<open>Destroying a synapse twice\<close>

lemmas connections_eval = initialize_def createSegment_def createSynapse_def
  updateSynapsePermanence_def destroySynapse_def removeSynapseFromPresynapticMap_m_def
  synapseExists_m_def eraseFromSegment_def storeOrErase_def entry_def bindE_def numCells_def
  numSegments_def segmentsForCell_def synapsesForSegment_def dataForSynapse_def
  minPermanence_def maxPermanence_def Epsilon_def Segment_max_def Synapse_max_def Let_def

text \<open>
  C9, failing input. Ten cells, threshold 0.5; segments \<open>s0\<close> on cell 3 and \<open>s1\<close> on cell
  4; synapses \<open>y0\<close> from cell 7 on \<open>s0\<close>, \<open>y1\<close> from cell 7 on \<open>s1\<close> and \<open>y2\<close> from cell 8
  on \<open>s0\<close>, all with permanence 0.6. After \<open>destroySynapse y0\<close> segment \<open>s0\<close> has one
  connected synapse and its counter is 1. A second \<open>destroySynapse y0\<close> is not the no-op
  that the existence check at its head is there for: the slot of \<open>y0\<close> still holds
  permanence 0.6 and not the sentinel, so the counter of \<open>s0\<close> drops to 0 while the
  connected synapse \<open>y2\<close> is still on \<open>s0\<close>. The tuple is the counter and the number of
  connected synapses of \<open>s0\<close> after the first and after the second call.
\<close>

theorem C9_double_destroy_breaks_numConnected:
  "bindE (initialize 10 (1 / 2) False) (\<lambda>c0.
   bindE (createSegment c0 3 10) (\<lambda>(s0, c1).
   bindE (createSegment c1 4 10) (\<lambda>(s1, c2).
   bindE (createSynapse c2 s0 7 (6 / 10)) (\<lambda>(y0, c3).
   bindE (createSynapse c3 s1 7 (6 / 10)) (\<lambda>(y1, c4).
   bindE (createSynapse c4 s0 8 (6 / 10)) (\<lambda>(y2, c5).
   bindE (destroySynapse c5 y0) (\<lambda>c6.
   bindE (destroySynapse c6 y0) (\<lambda>c7.
     Inr (numConnected (segments_m c6 ! s0),
          length (filter (isConnected c6) (synapses (segments_m c6 ! s0))),
          numConnected (segments_m c7 ! s0),
          length (filter (isConnected c7) (synapses (segments_m c7 ! s0))))))))))))
   = Inr (1, 1, 0, 1)"
  by (simp add: connections_eval isConnected_def)
section \<open>Raising the permanences of a segment\<close>




lemma nth_set_synapses_cell [simp]:
  "cell (xs[i := (xs ! i)\<lparr> synapses := v \<rparr>] ! y) = cell (xs ! y)"
  by (cases "i < length xs"; cases "y = i"; simp add: list_update_beyond)

lemma nth_set_synapses_numConnected [simp]:
  "numConnected (xs[i := (xs ! i)\<lparr> synapses := v \<rparr>] ! y) = numConnected (xs ! y)"
  by (cases "i < length xs"; cases "y = i"; simp add: list_update_beyond)















text \<open>
  The float sum can stay below the threshold. In \<open>connUlp\<close> the only synapse of segment 0
  has permanence \<open>5368709 / 2 ^ 28\<close> and the threshold is \<open>13421639 / 2 ^ 27\<close>. The
  difference lies halfway between two floats and is rounded down to \<open>2684321 / 2 ^ 25\<close>;
  the sum of the permanence and this shortfall lies halfway between two floats again and
  is rounded down to \<open>6710819 / 2 ^ 26\<close>, the float just below the threshold. With
  \<open>k = 1\<close> the synapse is raised to this value and is not connected.
\<close>

lemma wellFormed_connUlp: "wellFormed connUlp"
  unfolding wellFormed_def
proof (intro conjI)
  show "wfCells connUlp"
    by (auto simp: wfCells_def connUlp_def liveSegment_def less1 nth_Cons')
  show "wfSegments connUlp"
    by (auto simp: wfSegments_def connUlp_def live_def isConnected_def less1 nth_Cons')
  show "wfPermanences connUlp"
    by (auto simp: wfPermanences_def connUlp_def live_def minPermanence_def
        maxPermanence_def Synapse_max_def less1 nth_Cons')
  show "wfPresyn connUlp"
    by (auto simp: wfPresyn_def presynListsOK_def connUlp_def live_def isConnected_def
        entry_def nth_Cons' less1 split: if_splits)
qed

lemma fl32_ulp_shortfall: "fl32 (13421639 / 2 ^ 27 - 5368709 / 2 ^ 28) = 2684321 / 2 ^ 25"
proof -
  have "fl32 (13421639 / 2 ^ 27 - 5368709 / 2 ^ 28)
      = of_int (roundHalfEven ((13421639 / 2 ^ 27 - 5368709 / 2 ^ 28) / 2 powi (- 4 - 23)))
          * 2 powi (- 4 - 23)"
    by (rule fl32_eval) (simp_all add: power_int_minus)
  also have "\<dots> = 2684321 / 2 ^ 25"
    by (simp add: roundHalfEven_def power_int_minus)
  finally show ?thesis .
qed

lemma fl32_ulp_sum: "fl32 (5368709 / 2 ^ 28 + 2684321 / 2 ^ 25) = 6710819 / 2 ^ 26"
proof -
  have "fl32 (5368709 / 2 ^ 28 + 2684321 / 2 ^ 25)
      = of_int (roundHalfEven ((5368709 / 2 ^ 28 + 2684321 / 2 ^ 25) / 2 powi (- 4 - 23)))
          * 2 powi (- 4 - 23)"
    by (rule fl32_eval) (simp_all add: power_int_minus)
  also have "\<dots> = 6710819 / 2 ^ 26"
    by (simp add: roundHalfEven_def power_int_minus)
  finally show ?thesis .
qed

lemma raisePermanencesToThreshold_rounding:
  "(case raisePermanencesToThreshold nthElementBy connUlp 0 1 of
      Inl e \<Rightarrow> False
    | Inr c' \<Rightarrow>
        permanence (synapses_m c' ! 0) = 6710819 / 2 ^ 26 \<and>
        permanence (synapses_m c' ! 0) < connectedThreshold_m c' \<and>
        synapses (segments_m c' ! 0) = [0] \<and>
        numConnected (segments_m c' ! 0) = 0)"
proof -
  have d: "fsub (13421639 / 134217728) (5368709 / 268435456) = 2684321 / 33554432"
    using fl32_ulp_shortfall by (simp add: fsub_def)
  have s: "fadd (5368709 / 268435456) (2684321 / 33554432) = 6710819 / 67108864"
    using fl32_ulp_sum by (simp add: fadd_def)
  show ?thesis
    by (simp add: raisePermanencesToThreshold_def nthElementBy_def sortBy_def
        permanencesGreater_def bumpSegment_def connUlp_def connections_eval d s)
qed

section \<open>Destroying synapses and segments\<close>

lemma synapsesDestroyed_refl: "synapsesDestroyed c {} c"
  by (simp add: synapsesDestroyed_def)

lemma synapsesDestroyed_segment:
  assumes "synapsesDestroyed c D c'" "sg < length (segments_m c)"
  shows "set (synapses (segments_m c' ! sg)) = set (synapses (segments_m c ! sg)) - D"
    "set (synapses (segments_m c ! sg)) \<inter> D = {} \<Longrightarrow>
       synapses (segments_m c' ! sg) = synapses (segments_m c ! sg)"
  using assms by (simp_all add: synapsesDestroyed_def)

lemma synapsesDestroyed_trans:
  assumes a: "synapsesDestroyed c D c1" and b: "synapsesDestroyed c1 E c2"
  shows "synapsesDestroyed c (D \<union> E) c2"
proof -
  have l: "length (segments_m c1) = length (segments_m c)"
    using a by (simp add: synapsesDestroyed_def)
  have s: "set (synapses (segments_m c2 ! sg)) = set (synapses (segments_m c ! sg)) - (D \<union> E) \<and>
         (set (synapses (segments_m c ! sg)) \<inter> (D \<union> E) = {} \<longrightarrow>
            synapses (segments_m c2 ! sg) = synapses (segments_m c ! sg))"
    if sg: "sg < length (segments_m c)" for sg
  proof -
    have sg1: "sg < length (segments_m c1)" using sg l by simp
    note x = synapsesDestroyed_segment[OF a sg] and y = synapsesDestroyed_segment[OF b sg1]
    have "set (synapses (segments_m c2 ! sg)) = set (synapses (segments_m c ! sg)) - (D \<union> E)"
      using x(1) y(1) by auto
    moreover have "synapses (segments_m c2 ! sg) = synapses (segments_m c ! sg)"
      if d: "set (synapses (segments_m c ! sg)) \<inter> (D \<union> E) = {}"
    proof -
      have "set (synapses (segments_m c ! sg)) \<inter> D = {}" using d by auto
      then have e: "synapses (segments_m c1 ! sg) = synapses (segments_m c ! sg)" by (rule x(2))
      then have "set (synapses (segments_m c1 ! sg)) \<inter> E = {}" using d by auto
      then show ?thesis using y(2) e by simp
    qed
    ultimately show ?thesis by blast
  qed
  have r: "cells_m c2 = cells_m c" "destroyedSegments_m c2 = destroyedSegments_m c"
    "set (destroyedSynapses_m c2) = set (destroyedSynapses_m c) \<union> (D \<union> E)"
    "length (segments_m c2) = length (segments_m c)"
    "length (synapses_m c2) = length (synapses_m c)"
    "\<forall>sg. cell (segments_m c2 ! sg) = cell (segments_m c ! sg)"
    "\<forall>y. presynapticCell (synapses_m c2 ! y) = presynapticCell (synapses_m c ! y) \<and>
           segment (synapses_m c2 ! y) = segment (synapses_m c ! y) \<and>
           permanence (synapses_m c2 ! y) = permanence (synapses_m c ! y)"
    "connectedThreshold_m c2 = connectedThreshold_m c"
    "timeseries_m c2 = timeseries_m c"
    "previousUpdates_m c2 = previousUpdates_m c"
    "currentUpdates_m c2 = currentUpdates_m c"
    "prunedSyns_m c2 = prunedSyns_m c"
    "prunedSegs_m c2 = prunedSegs_m c"
    "iteration_m c2 = iteration_m c"
    using a b by (auto simp: synapsesDestroyed_def)
  show ?thesis
    unfolding synapsesDestroyed_def using r s by blast
qed


lemma synapseRemoved_destroyed:
  assumes wf: "wellFormed c" and lv: "live c sy" and r: "synapseRemoved c sy c'"
  shows "synapsesDestroyed c {sy} c'"
proof -
  let ?g = "segment (synapses_m c ! sy)"
  note lf = wf_live_facts[OF wf lv]
  have g: "?g < length (segments_m c)" using lf(2) .
  note sf = wf_segment_facts[OF wf g]
  have "set (synapses (segments_m c' ! s)) = set (synapses (segments_m c ! s)) - {sy}"
    if s: "s < length (segments_m c)" for s
  proof (cases "s = ?g")
    case True
    have "synapses (segments_m c' ! s) = eraseFromSegment sy (synapses (segments_m c ! s))"
      using r True by (simp add: synapseRemoved_def)
    then show ?thesis using eraseFromSegment_facts(1)[OF lf(3) sf(1)] True by simp
  next
    case False
    have e: "synapses (segments_m c' ! s) = synapses (segments_m c ! s)"
      using r False by (simp add: synapseRemoved_def)
    have "sy \<notin> set (synapses (segments_m c ! s))"
      using wf_segment_facts(2)[OF wf s] False by auto
    then show ?thesis using e by simp
  qed
  moreover have "synapses (segments_m c' ! s) = synapses (segments_m c ! s)"
    if "s < length (segments_m c)" "sy \<notin> set (synapses (segments_m c ! s))" for s
    using that r lf(3) by (auto simp: synapseRemoved_def)
  ultimately show ?thesis using r by (simp add: synapseRemoved_def synapsesDestroyed_def)
qed


declare destroySegmentLoop.simps [simp del]

text \<open>The loop of \<open>destroySegment\<close> ends and empties the segment.\<close>

lemma destroySegmentLoop_wf:
  assumes "wellFormed c" "sg < length (segments_m c)"
  shows "\<exists>c'. destroySegmentLoop c sg = Inr c' \<and> wellFormed c' \<and>
           synapsesDestroyed c (set (synapses (segments_m c ! sg))) c'"
  using assms
proof (induction "length (synapses (segments_m c ! sg))" arbitrary: c)
  case 0
  then have "synapses (segments_m c ! sg) = []" by simp
  then show ?case
    using 0 by (simp add: destroySegmentLoop.simps[of c sg] synapsesDestroyed_refl)
next
  case (Suc n)
  let ?xs = "synapses (segments_m c ! sg)"
  let ?sy = "last ?xs"
  have ne: "?xs \<noteq> []" using Suc.hyps(2) by auto
  then have mem: "?sy \<in> set ?xs" by simp
  note sf = wf_segment_facts[OF Suc.prems]
  have lv: "live c ?sy" and sgs: "segment (synapses_m c ! ?sy) = sg"
    using sf(2)[OF mem] by simp_all
  from destroySynapse_wf[OF Suc.prems(1) lv] obtain c1 where
    c1: "destroySynapse c ?sy = Inr c1" "wellFormed c1" "synapseRemoved c ?sy c1"
    by blast
  have x1: "synapses (segments_m c1 ! sg) = eraseFromSegment ?sy ?xs"
    using c1(3) sgs by (simp add: synapseRemoved_def)
  note ef = eraseFromSegment_facts[OF mem sf(1)]
  have l1: "length (synapses (segments_m c1 ! sg)) = n"
    using ef(3) Suc.hyps(2) by (simp add: x1)
  have sg1: "sg < length (segments_m c1)"
    using c1(3) Suc.prems(2) by (simp add: synapseRemoved_def)
  from Suc.hyps(1)[OF l1[symmetric] c1(2) sg1] obtain c' where
    c': "destroySegmentLoop c1 sg = Inr c'" "wellFormed c'"
      "synapsesDestroyed c1 (set (synapses (segments_m c1 ! sg))) c'"
    by blast
  note d1 = synapseRemoved_destroyed[OF Suc.prems(1) lv c1(3)]
  have "{?sy} \<union> set (synapses (segments_m c1 ! sg)) = set ?xs"
    using ef(1) mem by (auto simp: x1)
  then have d: "synapsesDestroyed c (set ?xs) c'"
    using synapsesDestroyed_trans[OF d1 c'(3)] by simp
  have lt: "length (synapses (segments_m c1 ! sg)) < length ?xs"
    using l1 Suc.hyps(2) by simp
  have "destroySegmentLoop c sg = Inr c'"
    using Suc.prems(2) ne c1(1) lt c'(1) by (simp add: destroySegmentLoop.simps[of c sg])
  then show ?case using c'(2) d by blast
qed

lemma live_cells_update [simp]:
  "live (c\<lparr> cells_m := x, destroyedSegments_m := y \<rparr>) = live c"
  by (auto simp: live_def fun_eq_iff)

lemma isConnected_cells_update [simp]:
  "isConnected (c\<lparr> cells_m := x, destroyedSegments_m := y \<rparr>) = isConnected c"
  by (auto simp: isConnected_def fun_eq_iff)

lemma wf_cells_update:
  "wfSegments (c\<lparr> cells_m := x, destroyedSegments_m := y \<rparr>) = wfSegments c"
  "wfPermanences (c\<lparr> cells_m := x, destroyedSegments_m := y \<rparr>) = wfPermanences c"
  "wfPresyn (c\<lparr> cells_m := x, destroyedSegments_m := y \<rparr>) = wfPresyn c"
  by (simp_all add: wfSegments_def wfPermanences_def wfPresyn_def)

lemma wf_cell_facts:
  assumes "wellFormed c" "liveSegment c sg"
  shows "cell (segments_m c ! sg) < length (cells_m c)"
    "sg \<in> set (segments (cells_m c ! cell (segments_m c ! sg)))"
    "sg < length (segments_m c)" "sg \<notin> set (destroyedSegments_m c)"
  using assms by (auto simp: wellFormed_def wfCells_def liveSegment_def)

lemma wf_cell_segments:
  assumes "wellFormed c" "cl < length (cells_m c)"
  shows "distinct (segments (cells_m c ! cl))"
    "\<And>s. s \<in> set (segments (cells_m c ! cl)) \<Longrightarrow> liveSegment c s \<and> cell (segments_m c ! s) = cl"
  using assms by (auto simp: wellFormed_def wfCells_def)

text \<open>Taking an emptied live segment off its cell keeps the invariants.\<close>

lemma wfCells_unlink:
  assumes wf: "wellFormed c" and lv: "liveSegment c sg"
    and em: "synapses (segments_m c ! sg) = []"
  shows "wfCells (c\<lparr> cells_m := (cells_m c)[cell (segments_m c ! sg) :=
         (cells_m c ! cell (segments_m c ! sg))
           \<lparr> segments := remove1 sg (segments (cells_m c ! cell (segments_m c ! sg))) \<rparr>],
       destroyedSegments_m := destroyedSegments_m c @ [sg] \<rparr>)" (is "wfCells ?c'")
proof -
  let ?cl = "cell (segments_m c ! sg)"
  note cf = wf_cell_facts[OF wf lv]
  have ls: "liveSegment ?c' s \<longleftrightarrow> liveSegment c s \<and> s \<noteq> sg" for s
    by (auto simp: liveSegment_def)
  have sgs: "segments (cells_m ?c' ! k)
      = (if k = ?cl then remove1 sg (segments (cells_m c ! k)) else segments (cells_m c ! k))"
    if "k < length (cells_m c)" for k
    using that by (simp add: nth_list_update)
  have A: "\<forall>k < length (cells_m ?c').
         distinct (segments (cells_m ?c' ! k)) \<and>
         (\<forall>s \<in> set (segments (cells_m ?c' ! k)).
            liveSegment ?c' s \<and> cell (segments_m ?c' ! s) = k)"
  proof (intro allI impI)
    fix k assume "k < length (cells_m ?c')"
    then have k: "k < length (cells_m c)" by simp
    note ks = wf_cell_segments[OF wf k]
    have e: "segments_m ?c' = segments_m c" by simp
    show "distinct (segments (cells_m ?c' ! k)) \<and>
         (\<forall>s \<in> set (segments (cells_m ?c' ! k)).
            liveSegment ?c' s \<and> cell (segments_m ?c' ! s) = k)"
    proof (cases "k = ?cl")
      case True
      then show ?thesis using ks unfolding ls sgs[OF k] e by auto
    next
      case False
      have "sg \<notin> set (segments (cells_m c ! k))" using ks(2) False by auto
      then show ?thesis using ks False unfolding ls sgs[OF k] e by auto
    qed
  qed
  have B: "\<forall>s. liveSegment ?c' s \<longrightarrow>
         cell (segments_m ?c' ! s) < length (cells_m ?c') \<and>
         s \<in> set (segments (cells_m ?c' ! cell (segments_m ?c' ! s)))"
  proof (intro allI impI)
    fix s assume "liveSegment ?c' s"
    then have l: "liveSegment c s" and n: "s \<noteq> sg" using ls by simp_all
    note sf = wf_cell_facts[OF wf l]
    have e: "segments_m ?c' = segments_m c" "length (cells_m ?c') = length (cells_m c)"
      by simp_all
    have "s \<in> set (segments (cells_m ?c' ! cell (segments_m c ! s)))"
    proof (cases "cell (segments_m c ! s) = ?cl")
      case True
      show ?thesis unfolding sgs[OF sf(1)] if_P[OF True] using sf(2) n by simp
    next
      case False
      show ?thesis unfolding sgs[OF sf(1)] if_not_P[OF False] using sf(2) by simp
    qed
    then show "cell (segments_m ?c' ! s) < length (cells_m ?c') \<and>
         s \<in> set (segments (cells_m ?c' ! cell (segments_m ?c' ! s)))"
      unfolding e using sf(1) by simp
  qed
  have d0: "distinct (destroyedSegments_m c)"
    "\<forall>s \<in> set (destroyedSegments_m c).
         s < length (segments_m c) \<and> synapses (segments_m c ! s) = []"
    using wf by (simp_all add: wellFormed_def wfCells_def)
  have C: "distinct (destroyedSegments_m ?c')"
    using d0(1) cf(4) by simp
  have D: "\<forall>s \<in> set (destroyedSegments_m ?c').
         s < length (segments_m ?c') \<and> synapses (segments_m ?c' ! s) = []"
    using d0(2) cf(3) em by simp
  show ?thesis
    unfolding wfCells_def by (intro conjI A B C D)
qed

lemma destroySegment_wf:
  assumes wf: "wellFormed c" and lv: "liveSegment c sg"
  shows "\<exists>c'. destroySegment c sg = Inr c' \<and> wellFormed c' \<and> segmentDestroyed c sg c'"
proof -
  let ?xs = "synapses (segments_m c ! sg)"
  let ?cl = "cell (segments_m c ! sg)"
  note cf = wf_cell_facts[OF wf lv]
  from destroySegmentLoop_wf[OF wf cf(3)] obtain c1 where
    c1: "destroySegmentLoop c sg = Inr c1" "wellFormed c1" "synapsesDestroyed c (set ?xs) c1"
    by blast
  have e: "cells_m c1 = cells_m c" "destroyedSegments_m c1 = destroyedSegments_m c"
    "length (segments_m c1) = length (segments_m c)"
    "length (synapses_m c1) = length (synapses_m c)"
    "\<And>s. cell (segments_m c1 ! s) = cell (segments_m c ! s)"
    "set (destroyedSynapses_m c1) = set (destroyedSynapses_m c) \<union> set ?xs"
    using c1(3) by (simp_all add: synapsesDestroyed_def)
  have lv1: "liveSegment c1 sg" using lv by (simp add: liveSegment_def e)
  have em: "synapses (segments_m c1 ! sg) = []"
    using synapsesDestroyed_segment(1)[OF c1(3) cf(3)] by simp
  define c' where "c' = c1\<lparr> cells_m := (cells_m c1)[cell (segments_m c1 ! sg) :=
         (cells_m c1 ! cell (segments_m c1 ! sg))
           \<lparr> segments := remove1 sg (segments (cells_m c1 ! cell (segments_m c1 ! sg))) \<rparr>],
       destroyedSegments_m := destroyedSegments_m c1 @ [sg] \<rparr>"
  have r: "destroySegment c sg = Inr c'"
    using c1(1) cf(1,2) by (simp add: destroySegment_def bindE_def Let_def e c'_def)
  have "wfCells c'" unfolding c'_def by (rule wfCells_unlink[OF c1(2) lv1 em])
  moreover have "wfSegments c'" "wfPermanences c'" "wfPresyn c'"
    using c1(2) by (simp_all add: c'_def wf_cells_update wellFormed_def)
  ultimately have wf': "wellFormed c'" by (simp add: wellFormed_def)
  have oth: "synapses (segments_m c1 ! s) = (if s = sg then [] else synapses (segments_m c ! s))"
    if s: "s < length (segments_m c)" for s
  proof (cases "s = sg")
    case True
    then show ?thesis using em by simp
  next
    case False
    have "set (synapses (segments_m c ! s)) \<inter> set ?xs = {}"
      using wf_segment_facts(2)[OF wf s] wf_segment_facts(2)[OF wf cf(3)] False by blast
    then show ?thesis using synapsesDestroyed_segment(2)[OF c1(3) s] False by simp
  qed
  have f: "segments_m c' = segments_m c1" "synapses_m c' = synapses_m c1"
    "destroyedSynapses_m c' = destroyedSynapses_m c1"
    "connectedThreshold_m c' = connectedThreshold_m c1" "timeseries_m c' = timeseries_m c1"
    "previousUpdates_m c' = previousUpdates_m c1" "currentUpdates_m c' = currentUpdates_m c1"
    "prunedSyns_m c' = prunedSyns_m c1" "prunedSegs_m c' = prunedSegs_m c1"
    "iteration_m c' = iteration_m c1"
    "cells_m c' = (cells_m c)[?cl :=
         (cells_m c ! ?cl) \<lparr> segments := remove1 sg (segments (cells_m c ! ?cl)) \<rparr>]"
    "destroyedSegments_m c' = destroyedSegments_m c @ [sg]"
    by (simp_all add: c'_def e)
  have "segmentDestroyed c sg c'"
    unfolding segmentDestroyed_def f
    using c1(3) oth e(6) by (simp add: synapsesDestroyed_def)
  then show ?thesis using r wf' by blast
qed

section \<open>Pruning the least useful segment\<close>

lemma fl32_saturates: "fl32 (2 ^ 24 + 1) = 2 ^ 24"
proof -
  have "fl32 (2 ^ 24 + 1)
      = of_int (roundHalfEven ((2 ^ 24 + 1) / 2 powi (24 - 23))) * 2 powi (24 - 23)"
    by (rule fl32_eval) simp_all
  also have "\<dots> = 2 ^ 24"
    by (simp add: roundHalfEven_def)
  finally show ?thesis .
qed

text \<open>
  A float sum of squares of permanences never leaves the range from 0 to \<open>2 ^ 24\<close>: a
  term of at most 1 added to \<open>2 ^ 24\<close> is rounded away.
\<close>

lemma heuristic_fold_range:
  assumes "\<forall>y \<in> set xs. 0 \<le> g y \<and> g y \<le> 1" and "0 \<le> a" "a \<le> 2 ^ 24"
  shows "0 \<le> foldl (\<lambda>h y. fadd h (fmul (g y) (g y))) a xs \<and>
         foldl (\<lambda>h y. fadd h (fmul (g y) (g y))) a xs \<le> 2 ^ 24"
  using assms
proof (induction xs arbitrary: a)
  case Nil
  then show ?case by simp
next
  case (Cons x xs)
  have g: "0 \<le> g x" "g x \<le> 1" using Cons.prems(1) by simp_all
  have q0: "0 \<le> fmul (g x) (g x)"
    unfolding fmul_def using g by (intro fl32_nonneg) simp
  have "g x * g x \<le> 1" using g by (simp add: mult_le_one)
  then have "fl32 (g x * g x) \<le> fl32 1" using g by (intro fl32_mono) simp_all
  then have q1: "fmul (g x) (g x) \<le> 1" by (simp add: fmul_def)
  have a0: "0 \<le> fadd a (fmul (g x) (g x))"
    unfolding fadd_def using q0 Cons.prems(2) by (intro fl32_nonneg) simp
  have "fl32 (a + fmul (g x) (g x)) \<le> fl32 (2 ^ 24 + 1)"
    using q0 q1 Cons.prems(2,3) by (intro fl32_mono) simp_all
  then have a1: "fadd a (fmul (g x) (g x)) \<le> 2 ^ 24"
    unfolding fadd_def fl32_saturates .
  have "\<forall>y \<in> set xs. 0 \<le> g y \<and> g y \<le> 1" using Cons.prems(1) by simp
  from Cons.IH[OF this a0 a1] show ?case by simp
qed

lemma heuristic_unfold:
  "heuristic c sg
     = foldl (\<lambda>h y. fadd h (fmul (permanence (synapses_m c ! y)) (permanence (synapses_m c ! y))))
         0 (synapses (segments_m c ! sg))"
  by (simp add: heuristic_def synapsesForSegment_def dataForSynapse_def Let_def)

lemma double_max_big: "(2::real) ^ 24 < double_max"
proof -
  have "(2::real) ^ 24 < 2 ^ 1023" by (rule power_strict_increasing) simp_all
  moreover have "(1::real) \<le> 2 - 1 / 2 ^ 52" by simp
  then have "(1::real) * 2 ^ 1023 \<le> (2 - 1 / 2 ^ 52) * 2 ^ 1023"
    by (intro mult_right_mono) simp_all
  ultimately show ?thesis by (simp add: double_max_def)
qed

lemma heuristic_bound:
  assumes wf: "wellFormed c" and sg: "sg < length (segments_m c)"
  shows "heuristic c sg < double_max"
proof -
  let ?xs = "synapses (segments_m c ! sg)"
  note sf = wf_segment_facts[OF wf sg]
  have p: "0 \<le> permanence (synapses_m c ! y) \<and> permanence (synapses_m c ! y) \<le> 1"
    if "y \<in> set ?xs" for y
  proof -
    have "live c y" using sf(2)[OF that] by simp
    then show ?thesis
      using wf by (auto simp: wellFormed_def wfPermanences_def minPermanence_def maxPermanence_def)
  qed
  have "heuristic c sg \<le> 2 ^ 24"
    unfolding heuristic_unfold
    using heuristic_fold_range[of ?xs "\<lambda>y. permanence (synapses_m c ! y)" 0] p by simp
  then show ?thesis using double_max_big by linarith
qed

text \<open>
  The fold of \<open>pruneSegment_m\<close>: the result is the start value or an element of the list
  with its heuristic, it is not above the start value, and no element of the list is
  below it, in the order by heuristic and then by handle.
\<close>

lemma leastUseful_fold:
  fixes c :: Connections
  defines "r \<equiv> \<lambda>acc xs. foldl (leastUsefulStep c) acc xs"
  shows "(r acc xs = acc \<or> (fst (r acc xs) \<in> set xs \<and> snd (r acc xs) = heuristic c (fst (r acc xs)))) \<and>
         (snd (r acc xs) < snd acc \<or> (snd (r acc xs) = snd acc \<and> fst (r acc xs) \<le> fst acc)) \<and>
         (\<forall>s \<in> set xs. snd (r acc xs) < heuristic c s \<or>
                        (snd (r acc xs) = heuristic c s \<and> fst (r acc xs) \<le> s))"
proof (induction xs arbitrary: acc)
  case Nil
  then show ?case by (simp add: r_def)
next
  case (Cons x xs)
  let ?a = "leastUsefulStep c acc x"
  have e: "r acc (x # xs) = r ?a xs" by (simp add: r_def)
  have st: "(?a = acc \<or> ?a = (x, heuristic c x)) \<and>
            (snd ?a < snd acc \<or> (snd ?a = snd acc \<and> fst ?a \<le> fst acc)) \<and>
            (snd ?a < heuristic c x \<or> (snd ?a = heuristic c x \<and> fst ?a \<le> x))"
    by (auto simp: leastUsefulStep_def Let_def)
  note ih = Cons.IH[of ?a]
  show ?case
    unfolding e using ih st by (auto simp del: foldl_Cons)
qed

declare pruneLoop.simps [simp del]

lemma leastUseful_spec:
  assumes wf: "wellFormed c" and cl: "cl < length (cells_m c)"
    and ne: "segments (cells_m c ! cl) \<noteq> []"
  shows "fst (leastUseful c cl) \<in> set (segments (cells_m c ! cl))"
    "snd (leastUseful c cl) = heuristic c (fst (leastUseful c cl))"
    "\<forall>s \<in> set (segments (cells_m c ! cl)).
       heuristic c (fst (leastUseful c cl)) < heuristic c s \<or>
       (heuristic c (fst (leastUseful c cl)) = heuristic c s \<and> fst (leastUseful c cl) \<le> s)"
proof -
  let ?xs = "segments (cells_m c ! cl)"
  let ?r = "leastUseful c cl"
  have r: "?r = foldl (leastUsefulStep c) (Segment_max, double_max) ?xs"
    by (simp add: leastUseful_def segmentsForCell_def)
  note f = leastUseful_fold[of c "(Segment_max, double_max)" ?xs, folded r]
  obtain x where x: "x \<in> set ?xs" using ne by (cases ?xs) auto
  have "liveSegment c x" using wf_cell_segments(2)[OF wf cl x] by simp
  then have "x < length (segments_m c)" by (simp add: liveSegment_def)
  then have hb: "heuristic c x < double_max" by (rule heuristic_bound[OF wf])
  have "snd ?r \<le> heuristic c x" using f x by auto
  then have "?r \<noteq> (Segment_max, double_max)" using hb by auto
  then have a: "fst ?r \<in> set ?xs" "snd ?r = heuristic c (fst ?r)" using f by auto
  show "fst ?r \<in> set ?xs" by (rule a(1))
  show "snd ?r = heuristic c (fst ?r)" by (rule a(2))
  show "\<forall>s \<in> set ?xs. heuristic c (fst ?r) < heuristic c s \<or>
       (heuristic c (fst ?r) = heuristic c s \<and> fst ?r \<le> s)"
    using f a(2) by simp
qed

lemma pruneSegment_m_eq:
  assumes wf: "wellFormed c" and cl: "cl < length (cells_m c)"
  shows "pruneSegment_m c cl = destroySegment c (fst (leastUseful c cl))"
proof -
  have "sg < length (segments_m c) \<and>
        list_all (\<lambda>syn. syn < length (synapses_m c)) (synapsesForSegment c sg)"
    if "sg \<in> set (segmentsForCell c cl)" for sg
  proof -
    have "liveSegment c sg" using wf_cell_segments(2)[OF wf cl] that
      by (simp add: segmentsForCell_def)
    then have s: "sg < length (segments_m c)" by (simp add: liveSegment_def)
    show ?thesis
      using s wf_segment_facts(2)[OF wf s]
      by (auto simp: list_all_iff synapsesForSegment_def live_def)
  qed
  then have "list_all (\<lambda>sg. sg < length (segments_m c) \<and>
                 list_all (\<lambda>syn. syn < length (synapses_m c)) (synapsesForSegment c sg))
               (segmentsForCell c cl)"
    by (simp add: list_all_iff)
  then show ?thesis using cl by (simp add: pruneSegment_m_def)
qed

text \<open>Taking the last handle of the free-list for a new, empty segment on a cell.\<close>

lemma wellFormed_relink:
  assumes wf: "wellFormed c" and ds: "destroyedSegments_m c = ds @ [sg]"
    and cl: "cl < length (cells_m c)"
  shows "wellFormed (c\<lparr> destroyedSegments_m := ds,
           segments_m := (segments_m c)[sg := \<lparr> synapses = [], numConnected = 0, cell = cl \<rparr>],
           cells_m := (cells_m c)[cl := (cells_m c ! cl)
              \<lparr> segments := segments (cells_m c ! cl) @ [sg] \<rparr>] \<rparr>)" (is "wellFormed ?c'")
proof -
  have d0: "distinct (destroyedSegments_m c)"
    "\<forall>s \<in> set (destroyedSegments_m c).
         s < length (segments_m c) \<and> synapses (segments_m c ! s) = []"
    using wf by (simp_all add: wellFormed_def wfCells_def)
  have sg: "sg < length (segments_m c)" and em: "synapses (segments_m c ! sg) = []"
    and nd: "sg \<notin> set ds" and dd: "distinct ds"
    using d0 ds by simp_all
  have nl: "\<not> liveSegment c sg" using ds by (simp add: liveSegment_def)
  have ls: "liveSegment ?c' s \<longleftrightarrow> liveSegment c s \<or> s = sg" for s
    using sg nd ds by (auto simp: liveSegment_def)
  have lv: "live ?c' = live c" by (auto simp: live_def fun_eq_iff)
  have con: "isConnected ?c' = isConnected c" by (auto simp: isConnected_def fun_eq_iff)
  have segs: "segments (cells_m ?c' ! k)
      = (if k = cl then segments (cells_m c ! k) @ [sg] else segments (cells_m c ! k))"
    if "k < length (cells_m c)" for k
    using that by (simp add: nth_list_update)
  have cel: "cell (segments_m ?c' ! s) = (if s = sg then cl else cell (segments_m c ! s))" for s
    using sg by (simp add: nth_list_update)
  have syn: "synapses (segments_m ?c' ! s) = synapses (segments_m c ! s)" for s
    using sg em by (auto simp: nth_list_update)
  have nsg: "sg \<notin> set (segments (cells_m c ! k))" if k: "k < length (cells_m c)" for k
    using wf_cell_segments(2)[OF wf k] nl by auto
  have len: "length (cells_m ?c') = length (cells_m c)"
    "length (segments_m ?c') = length (segments_m c)" by simp_all
  have A: "\<forall>k < length (cells_m ?c').
         distinct (segments (cells_m ?c' ! k)) \<and>
         (\<forall>s \<in> set (segments (cells_m ?c' ! k)).
            liveSegment ?c' s \<and> cell (segments_m ?c' ! s) = k)"
  proof (intro allI impI)
    fix k assume "k < length (cells_m ?c')"
    then have k: "k < length (cells_m c)" by simp
    note ks = wf_cell_segments[OF wf k]
    show "distinct (segments (cells_m ?c' ! k)) \<and>
         (\<forall>s \<in> set (segments (cells_m ?c' ! k)).
            liveSegment ?c' s \<and> cell (segments_m ?c' ! s) = k)"
      unfolding segs[OF k] ls cel using ks nsg[OF k] by auto
  qed
  have B: "\<forall>s. liveSegment ?c' s \<longrightarrow>
         cell (segments_m ?c' ! s) < length (cells_m ?c') \<and>
         s \<in> set (segments (cells_m ?c' ! cell (segments_m ?c' ! s)))"
  proof (intro allI impI)
    fix s assume "liveSegment ?c' s"
    then consider "s = sg" | "s \<noteq> sg" "liveSegment c s" using ls by blast
    then show "cell (segments_m ?c' ! s) < length (cells_m ?c') \<and>
         s \<in> set (segments (cells_m ?c' ! cell (segments_m ?c' ! s)))"
    proof cases
      case 1
      have "cell (segments_m ?c' ! s) = cl" using 1 cel by simp
      then show ?thesis unfolding len using cl segs[OF cl] 1 by simp
    next
      case 2
      note sf = wf_cell_facts[OF wf 2(2)]
      have c: "cell (segments_m ?c' ! s) = cell (segments_m c ! s)" using 2(1) cel by simp
      have "s \<in> set (segments (cells_m ?c' ! cell (segments_m c ! s)))"
      proof (cases "cell (segments_m c ! s) = cl")
        case True
        show ?thesis unfolding segs[OF sf(1)] if_P[OF True] using sf(2) by simp
      next
        case False
        show ?thesis unfolding segs[OF sf(1)] if_not_P[OF False] using sf(2) by simp
      qed
      then show ?thesis unfolding c len using sf(1) by simp
    qed
  qed
  have C: "distinct (destroyedSegments_m ?c')" using dd by simp
  have D: "\<forall>s \<in> set (destroyedSegments_m ?c').
         s < length (segments_m ?c') \<and> synapses (segments_m ?c' ! s) = []"
    unfolding syn len using d0(2) ds by simp
  have wc: "wfCells ?c'" unfolding wfCells_def by (intro conjI A B C D)
  have nc: "numConnected (segments_m ?c' ! s) = numConnected (segments_m c ! s)"
    if "s < length (segments_m c)" for s
  proof (cases "s = sg")
    case True
    have "numConnected (segments_m c ! sg) = 0"
      using wf_segment_facts(3)[OF wf sg] em by simp
    then show ?thesis using True sg by simp
  next
    case False
    then show ?thesis by simp
  qed
  have e: "synapses_m ?c' = synapses_m c" "destroyedSynapses_m ?c' = destroyedSynapses_m c"
    "connectedThreshold_m ?c' = connectedThreshold_m c"
    "connectedSynapsesForPresynapticCell_m ?c' = connectedSynapsesForPresynapticCell_m c"
    "connectedSegmentsForPresynapticCell_m ?c' = connectedSegmentsForPresynapticCell_m c"
    "potentialSynapsesForPresynapticCell_m ?c' = potentialSynapsesForPresynapticCell_m c"
    "potentialSegmentsForPresynapticCell_m ?c' = potentialSegmentsForPresynapticCell_m c"
    by simp_all
  have nc': "numConnected ((segments_m c)[sg := \<lparr> synapses = [], numConnected = 0, cell = cl \<rparr>] ! s)
      = numConnected (segments_m c ! s)" if "s < length (segments_m c)" for s
    using nc[OF that] by simp
  have w0: "wfSegments c" using wf by (simp add: wellFormed_def)
  have ws: "wfSegments ?c'"
    using w0 unfolding wfSegments_def lv con e syn len
    by (simp add: nc')
  have wp: "wfPermanences ?c'"
    using wf unfolding wellFormed_def wfPermanences_def lv e by simp
  have wy: "wfPresyn ?c'"
    using wf unfolding wellFormed_def wfPresyn_def lv con e by simp
  show ?thesis unfolding wellFormed_def by (intro conjI wc ws wp wy)
qed

lemma createSegment_at_cap:
  assumes wf: "wellFormed c" and cl: "cl < length (cells_m c)"
    and m: "0 < maxSegmentsPerCell"
    and cap: "length (segments (cells_m c ! cl)) = maxSegmentsPerCell"
  defines "lu \<equiv> fst (leastUseful c cl)"
  shows "\<exists>c1 c'. destroySegment c lu = Inr c1 \<and> wellFormed c1 \<and> segmentDestroyed c lu c1 \<and>
           createSegment c cl maxSegmentsPerCell = Inr (lu, c') \<and>
           createSegment c1 cl maxSegmentsPerCell = Inr (lu, c') \<and> wellFormed c' \<and>
           c' = c1\<lparr> destroyedSegments_m := destroyedSegments_m c,
                    segments_m := (segments_m c1)[lu := \<lparr> synapses = [], numConnected = 0, cell = cl \<rparr>],
                    cells_m := (cells_m c1)[cl := (cells_m c1 ! cl)
                       \<lparr> segments := segments (cells_m c1 ! cl) @ [lu] \<rparr>] \<rparr>"
proof -
  let ?segs = "segments (cells_m c ! cl)"
  have ne: "?segs \<noteq> []" using m cap by auto
  note lu = leastUseful_spec[OF wf cl ne, folded lu_def]
  have lv: "liveSegment c lu" and lc: "cell (segments_m c ! lu) = cl"
    using wf_cell_segments(2)[OF wf cl lu(1)] by simp_all
  from destroySegment_wf[OF wf lv] obtain c1 where
    c1: "destroySegment c lu = Inr c1" "wellFormed c1" "segmentDestroyed c lu c1"
    by blast
  have e: "cells_m c1 = (cells_m c)[cl := (cells_m c ! cl) \<lparr> segments := remove1 lu ?segs \<rparr>]"
    "destroyedSegments_m c1 = destroyedSegments_m c @ [lu]"
    "length (segments_m c1) = length (segments_m c)"
    using c1(3) by (simp_all add: segmentDestroyed_def lc)
  have s1: "segments (cells_m c1 ! cl) = remove1 lu ?segs" using cl by (simp add: e)
  have n1: "numSegments c1 cl = maxSegmentsPerCell - 1"
    using lu(1) cap by (simp add: numSegments_def segmentsForCell_def s1 length_remove1)
  have n0: "numSegments c cl = maxSegmentsPerCell"
    using cap by (simp add: numSegments_def segmentsForCell_def)
  have lt: "\<not> maxSegmentsPerCell \<le> numSegments c1 cl" using n1 m by simp
  have p1: "pruneLoop c1 cl maxSegmentsPerCell = Inr c1"
    using lt by (simp add: pruneLoop.simps[of c1 cl])
  have ps: "pruneSegment_m c cl = Inr c1"
    using pruneSegment_m_eq[OF wf cl] c1(1) by (simp add: lu_def)
  have p0: "pruneLoop c cl maxSegmentsPerCell = Inr c1"
    using n0 lt ps p1 by (simp add: pruneLoop.simps[of c cl])
  have cl1: "cl < length (cells_m c1)" using cl by (simp add: e)
  have lul: "lu < length (segments_m c1)" using lv by (simp add: liveSegment_def e)
  define c' where "c' = c1\<lparr> destroyedSegments_m := destroyedSegments_m c,
                    segments_m := (segments_m c1)[lu := \<lparr> synapses = [], numConnected = 0, cell = cl \<rparr>],
                    cells_m := (cells_m c1)[cl := (cells_m c1 ! cl)
                       \<lparr> segments := segments (cells_m c1 ! cl) @ [lu] \<rparr>] \<rparr>"
  have r: "createSegment c cl maxSegmentsPerCell = Inr (lu, c')"
    using m cl lul
    by (simp add: createSegment_def numCells_def p0 bindE_def Let_def e(2) c'_def)
  have r1: "createSegment c1 cl maxSegmentsPerCell = Inr (lu, c')"
    using m cl1 lul
    by (simp add: createSegment_def numCells_def p1 bindE_def Let_def e(2) c'_def)
  have wf': "wellFormed c'"
    unfolding c'_def by (rule wellFormed_relink[OF c1(2) e(2) cl1])
  show ?thesis using c1 r r1 wf' c'_def by blast
qed

lemma less3: "(y::nat) < 3 \<longleftrightarrow> y = 0 \<or> y = 1 \<or> y = 2" by auto

lemma wellFormed_connTie: "wellFormed connTie"
  unfolding wellFormed_def
proof (intro conjI)
  show "wfCells connTie"
    by (auto simp: wfCells_def connTie_def liveSegment_def less1 less2 nth_Cons')
  show "wfSegments connTie"
    by (auto simp: wfSegments_def connTie_def live_def isConnected_def less3 less2 less1
        nth_Cons')
  show "wfPermanences connTie"
    by (auto simp: wfPermanences_def connTie_def live_def minPermanence_def
        maxPermanence_def Synapse_max_def less3 nth_Cons')
  show "wfPresyn connTie"
    by (auto simp: wfPresyn_def presynListsOK_def connTie_def live_def isConnected_def
        entry_def nth_Cons' less3 less1 split: if_splits)
qed

text \<open>
  The float heuristic of both segments of \<open>connTie\<close> is 0.25: on segment 0 the square of
  \<open>1 / 8192\<close> is half the distance from 0.25 to the next float, and the sum is rounded to
  0.25.
\<close>

lemma fl32_quarter_absorbs: "fl32 (16777217 / 67108864) = 1 / 4"
proof -
  have "fl32 (16777217 / 67108864)
      = of_int (roundHalfEven ((16777217 / 67108864) / 2 powi (- 2 - 23))) * 2 powi (- 2 - 23)"
    by (rule fl32_eval) (simp_all add: power_int_minus)
  also have "\<dots> = 1 / 4"
    by (simp add: roundHalfEven_def power_int_minus)
  finally show ?thesis .
qed

lemma fl32_quarter: "fl32 (1 / 4) = 1 / 4"
  using fl32_exact[of 1 "- 2"] by (simp add: power_int_minus)

lemma fl32_small_square: "fl32 (1 / 67108864) = 1 / 67108864"
  using fl32_exact[of 1 "- 26"] by (simp add: power_int_minus)

lemma heuristic_connTie: "heuristic connTie 0 = 1 / 4" "heuristic connTie 1 = 1 / 4"
  by (simp_all add: heuristic_unfold connTie_def fadd_def fmul_def fl32_quarter
      fl32_small_square fl32_quarter_absorbs)

lemma leastUseful_connTie: "fst (leastUseful connTie 0) = 0"
proof -
  have cl: "0 < length (cells_m connTie)" by (simp add: connTie_def)
  have s: "segments (cells_m connTie ! 0) = [0, 1]" by (simp add: connTie_def)
  have ne: "segments (cells_m connTie ! 0) \<noteq> []" by (simp add: s)
  note l = leastUseful_spec[OF wellFormed_connTie cl ne]
  from l(1) have "fst (leastUseful connTie 0) = 0 \<or> fst (leastUseful connTie 0) = 1"
    unfolding s by simp
  moreover from l(3) have
    "heuristic connTie (fst (leastUseful connTie 0)) < heuristic connTie 0 \<or>
     (heuristic connTie (fst (leastUseful connTie 0)) = heuristic connTie 0 \<and>
      fst (leastUseful connTie 0) \<le> 0)"
    unfolding s by simp
  ultimately show ?thesis using heuristic_connTie by auto
qed

text \<open>
  C4, counterexample. In \<open>connTie\<close> the cell has two segments. The squared permanences of
  segment 1 sum to 0.25, those of segment 0 to more. With a cap of two segments
  \<open>createSegment\<close> destroys segment 0, not segment 1: the new segment takes the handle 0
  and has no synapses, and segment 1 keeps its synapse.
\<close>

theorem C4_exact_sum_counterexample:
  "(case createSegment connTie 0 2 of
      Inl e \<Rightarrow> False
    | Inr r \<Rightarrow> fst r = 0 \<and> synapses (segments_m (snd r) ! 0) = [] \<and>
               synapses (segments_m (snd r) ! 1) = [2]) \<and>
   segments (cells_m connTie ! 0) = [0, 1] \<and>
   synapses (segments_m connTie ! 0) = [0, 1] \<and> synapses (segments_m connTie ! 1) = [2] \<and>
   (permanence (synapses_m connTie ! 2))\<^sup>2
     < (permanence (synapses_m connTie ! 0))\<^sup>2 + (permanence (synapses_m connTie ! 1))\<^sup>2"
proof -
  have cl: "0 < length (cells_m connTie)" by (simp add: connTie_def)
  have cap: "length (segments (cells_m connTie ! 0)) = 2" by (simp add: connTie_def)
  from createSegment_at_cap[OF wellFormed_connTie cl _ cap, unfolded leastUseful_connTie]
  obtain c1 c' where c: "segmentDestroyed connTie 0 c1"
    "createSegment connTie 0 2 = Inr (0, c')"
    "c' = c1\<lparr> destroyedSegments_m := destroyedSegments_m connTie,
               segments_m := (segments_m c1)[0 := \<lparr> synapses = [], numConnected = 0, cell = 0 \<rparr>],
               cells_m := (cells_m c1)[0 := (cells_m c1 ! 0)
                  \<lparr> segments := segments (cells_m c1 ! 0) @ [0] \<rparr>] \<rparr>"
    by auto
  have l: "length (segments_m c1) = 2" using c(1) by (simp add: segmentDestroyed_def connTie_def)
  have "synapses (segments_m c1 ! 1) = synapses (segments_m connTie ! 1)"
    using c(1) by (simp add: segmentDestroyed_def connTie_def)
  then have s1: "synapses (segments_m c' ! 1) = [2]" by (simp add: c(3) connTie_def)
  have s0: "synapses (segments_m c' ! 0) = []" using l by (simp add: c(3))
  show ?thesis
    using s0 s1 by (simp add: c(2)) (simp add: connTie_def power2_eq_square)
qed

text \<open>
  C4, as the code has it. A cell of a well-formed state has exactly
  \<open>maxSegmentsPerCell > 0\<close> segments. Then \<open>createSegment\<close> picks the segment \<open>lu\<close> of the
  cell that \<open>pruneSegment_m\<close> computes. The heuristic of every segment of the cell is the
  float sum of the float squares of the permanences of its synapses, accumulated from 0 in
  the order of the synapse list, and \<open>lu\<close> has the least heuristic, with the lower handle
  among equals. The call goes through the state \<open>c1\<close> that \<open>destroySegment\<close> of \<open>lu\<close> gives,
  in which \<open>lu\<close> is off the cell and on the free-list and its synapses are destroyed, and it
  returns what \<open>createSegment\<close> returns in \<open>c1\<close>: a live segment on the cell, appended to
  the list of the cell, with no synapses. The handle is the one just freed. Both states are
  well-formed.
\<close>

theorem C4_createSegment_prunes_least_useful:
  assumes "wellFormed c" and "cl < length (cells_m c)" and "0 < maxSegmentsPerCell"
    and "length (segments (cells_m c ! cl)) = maxSegmentsPerCell"
  shows "\<exists>lu c1 c'.
           lu = fst (leastUseful c cl) \<and> lu \<in> set (segments (cells_m c ! cl)) \<and>
           (\<forall>s \<in> set (segments (cells_m c ! cl)).
              heuristic c s
                = foldl (\<lambda>h y. fadd h (fmul (permanence (synapses_m c ! y))
                                              (permanence (synapses_m c ! y))))
                    0 (synapses (segments_m c ! s)) \<and>
              (heuristic c lu < heuristic c s \<or> (heuristic c lu = heuristic c s \<and> lu \<le> s))) \<and>
           destroySegment c lu = Inr c1 \<and> wellFormed c1 \<and> segmentDestroyed c lu c1 \<and>
           \<not> liveSegment c1 lu \<and>
           segments (cells_m c1 ! cl) = remove1 lu (segments (cells_m c ! cl)) \<and>
           createSegment c cl maxSegmentsPerCell = Inr (lu, c') \<and>
           createSegment c1 cl maxSegmentsPerCell = Inr (lu, c') \<and>
           wellFormed c' \<and> liveSegment c' lu \<and>
           segments_m c' ! lu = \<lparr> synapses = [], numConnected = 0, cell = cl \<rparr> \<and>
           segments (cells_m c' ! cl) = remove1 lu (segments (cells_m c ! cl)) @ [lu] \<and>
           set (synapses (segments_m c ! lu)) \<subseteq> set (destroyedSynapses_m c')"
proof -
  define lu where "lu = fst (leastUseful c cl)"
  have ne: "segments (cells_m c ! cl) \<noteq> []" using assms(3,4) by auto
  note l = leastUseful_spec[OF assms(1,2) ne, folded lu_def]
  have lv: "liveSegment c lu" and lc: "cell (segments_m c ! lu) = cl"
    using wf_cell_segments(2)[OF assms(1,2) l(1)] by simp_all
  from createSegment_at_cap[OF assms, folded lu_def] obtain c1 c' where
    c: "destroySegment c lu = Inr c1" "wellFormed c1" "segmentDestroyed c lu c1"
      "createSegment c cl maxSegmentsPerCell = Inr (lu, c')"
      "createSegment c1 cl maxSegmentsPerCell = Inr (lu, c')" "wellFormed c'"
      "c' = c1\<lparr> destroyedSegments_m := destroyedSegments_m c,
                    segments_m := (segments_m c1)[lu := \<lparr> synapses = [], numConnected = 0, cell = cl \<rparr>],
                    cells_m := (cells_m c1)[cl := (cells_m c1 ! cl)
                       \<lparr> segments := segments (cells_m c1 ! cl) @ [lu] \<rparr>] \<rparr>"
    by blast
  have e: "cells_m c1 = (cells_m c)[cl := (cells_m c ! cl)
               \<lparr> segments := remove1 lu (segments (cells_m c ! cl)) \<rparr>]"
    "destroyedSegments_m c1 = destroyedSegments_m c @ [lu]"
    "length (segments_m c1) = length (segments_m c)"
    "set (destroyedSynapses_m c1) = set (destroyedSynapses_m c) \<union> set (synapses (segments_m c ! lu))"
    using c(3) by (simp_all add: segmentDestroyed_def lc)
  have s1: "segments (cells_m c1 ! cl) = remove1 lu (segments (cells_m c ! cl))"
    using assms(2) by (simp add: e)
  have n1: "\<not> liveSegment c1 lu" by (simp add: liveSegment_def e)
  have lul: "lu < length (segments_m c)" "lu \<notin> set (destroyedSegments_m c)"
    using lv by (simp_all add: liveSegment_def)
  have a: "liveSegment c' lu" using lul by (simp add: c(7) liveSegment_def e)
  have b: "segments_m c' ! lu = \<lparr> synapses = [], numConnected = 0, cell = cl \<rparr>"
    using lul by (simp add: c(7) e)
  have d: "segments (cells_m c' ! cl) = remove1 lu (segments (cells_m c ! cl)) @ [lu]"
    using assms(2) by (simp add: c(7) e)
  have f: "set (synapses (segments_m c ! lu)) \<subseteq> set (destroyedSynapses_m c')"
    using e(4) by (simp add: c(7))
  have h: "\<forall>s \<in> set (segments (cells_m c ! cl)).
              heuristic c s
                = foldl (\<lambda>h y. fadd h (fmul (permanence (synapses_m c ! y))
                                              (permanence (synapses_m c ! y))))
                    0 (synapses (segments_m c ! s)) \<and>
              (heuristic c lu < heuristic c s \<or> (heuristic c lu = heuristic c s \<and> lu \<le> s))"
    using l(3) heuristic_unfold by simp
  show ?thesis
    using lu_def l(1) h c(1,2,3) n1 s1 c(4,5,6) a b d f by blast
qed

theorem C4_createSegment_witness:
  "wellFormed connTie \<and> 0 < length (cells_m connTie) \<and> (0::nat) < 2 \<and>
   length (segments (cells_m connTie ! 0)) = 2 \<and>
   heuristic connTie 0 = 1 / 4 \<and> heuristic connTie 1 = 1 / 4 \<and>
   (\<exists>c'. createSegment connTie 0 2 = Inr (0, c') \<and> wellFormed c' \<and>
      segments_m c' ! 0 = \<lparr> synapses = [], numConnected = 0, cell = 0 \<rparr> \<and>
      segments (cells_m c' ! 0) = [1, 0] \<and>
      0 \<in> set (destroyedSynapses_m c') \<and> 1 \<in> set (destroyedSynapses_m c'))"
proof -
  have h: "0 < length (cells_m connTie)" "(0::nat) < 2"
    "length (segments (cells_m connTie ! 0)) = 2"
    by (simp_all add: connTie_def)
  have s: "segments (cells_m connTie ! 0) = [0, 1]" "synapses (segments_m connTie ! 0) = [0, 1]"
    by (simp_all add: connTie_def)
  from C4_createSegment_prunes_least_useful [OF wellFormed_connTie h]
  obtain lu c' where c': "lu \<in> set (segments (cells_m connTie ! 0))"
    "\<forall>s \<in> set (segments (cells_m connTie ! 0)).
       heuristic connTie lu < heuristic connTie s \<or>
       (heuristic connTie lu = heuristic connTie s \<and> lu \<le> s)"
    "createSegment connTie 0 2 = Inr (lu, c')" "wellFormed c'"
    "segments_m c' ! lu = \<lparr> synapses = [], numConnected = 0, cell = 0 \<rparr>"
    "segments (cells_m c' ! 0) = remove1 lu (segments (cells_m connTie ! 0)) @ [lu]"
    "set (synapses (segments_m connTie ! lu)) \<subseteq> set (destroyedSynapses_m c')"
    by blast
  have "lu = 0 \<or> lu = 1" using c'(1) unfolding s by simp
  moreover have "heuristic connTie lu < heuristic connTie 0 \<or>
       (heuristic connTie lu = heuristic connTie 0 \<and> lu \<le> 0)"
    using c'(2) unfolding s by simp
  ultimately have lu: "lu = 0" using heuristic_connTie by auto
  show ?thesis
    using c'(3-7) h wellFormed_connTie heuristic_connTie unfolding lu s by auto
qed

section \<open>Adapting a segment\<close>






lemma length_resize [simp]: "length (resize xs n v) = n"
  by (simp add: resize_def)



lemma wellFormed_connEps: "wellFormed connEps"
  unfolding wellFormed_def
proof (intro conjI)
  show "wfCells connEps"
    by (auto simp: wfCells_def connEps_def liveSegment_def less2 nth_Cons')
  show "wfSegments connEps"
    by (auto simp: wfSegments_def connEps_def live_def isConnected_def Epsilon_def less2 nth_Cons')
  show "wfPermanences connEps"
    by (auto simp: wfPermanences_def connEps_def live_def Epsilon_def minPermanence_def
        maxPermanence_def Synapse_max_def)
  show "wfPresyn connEps"
    by (auto simp: wfPresyn_def presynListsOK_def connEps_def live_def isConnected_def
        Epsilon_def entry_def nth_Cons' split: if_splits)
qed





end
